theory Spec2Isabelle
  imports Main "HOL-Library.Word"
begin

unbundle bit_operations_syntax

section \<open>Paper-tape frames and words\<close>

text \<open>
  The two C programs \<^verbatim>\<open>verify/decodehcint.c\<close> (the decode consumer) and
  \<^verbatim>\<open>tweak/tweak.c\<close> (the re-encoding consumer) work on \<^verbatim>\<open>uint32_t\<close> words and on
  bytes read with \<^verbatim>\<open>fgetc\<close>. A \<^verbatim>\<open>uint32_t\<close> is a \<open>32 word\<close>, a tape frame an
  \<open>8 word\<close>, and a \<^verbatim>\<open>FILE *\<close> opened for reading is the list of the bytes not yet read;
  a \<^verbatim>\<open>FILE *\<close> opened for writing is the list of the bytes written so far.

  The C sources write their masks in octal. Isabelle has no octal numerals, so the
  constants appear in hexadecimal:
  \<^verbatim>\<open>0200 = 0x80\<close>, \<^verbatim>\<open>0100 = 0x40\<close>, \<^verbatim>\<open>077 = 0x3F\<close>, \<^verbatim>\<open>0177 = 0x7F\<close>, \<^verbatim>\<open>014 = 0xC\<close>,
  \<^verbatim>\<open>0007700 = 0xFC0\<close>, \<^verbatim>\<open>0770000 = 0x3F000\<close>, \<^verbatim>\<open>0777777 = 0x3FFFF\<close>,
  \<^verbatim>\<open>0060000 = 0x6000\<close>, \<^verbatim>\<open>0100000 = 0x8000\<close>, \<^verbatim>\<open>0077777 = 0x7FFF\<close>,
  \<^verbatim>\<open>0600000 = 0x30000\<close>, \<^verbatim>\<open>0700000 = 0x38000\<close>.
\<close>

type_synonym u32 = "32 word"
type_synonym u8 = "8 word"
type_synonym stream = "u8 list"

text \<open>\<^verbatim>\<open>EOF\<close> is \<open>-1\<close>; returned as a \<^verbatim>\<open>uint32_t\<close> it is \<open>0xFFFFFFFF\<close>.\<close>

definition EOF_u32 :: u32 where
  "EOF_u32 = - 1"

definition NOTES_BUFFER_SIZE :: nat where
  "NOTES_BUFFER_SIZE = 8192"

text \<open>
  Every way the programs stop with a failure: the \<^verbatim>\<open>exit(1)\<close> calls and \<^verbatim>\<open>return 1\<close> of
  \<^verbatim>\<open>main\<close>, and the places where the C code has undefined behaviour (an integer division
  by zero, an access outside the notes buffer).
\<close>

datatype error =
    InnerDropoutError          \<comment> \<open>\<^verbatim>\<open>read_next_word\<close>: inner blank frames found in a word\<close>
  | ChecksumMismatchError      \<comment> \<open>\<^verbatim>\<open>verify_checksum\<close>\<close>
  | MissingGapError            \<comment> \<open>bars part must have blank frames before it\<close>
  | InvalidArticulationError   \<comment> \<open>\<^verbatim>\<open>articulation_name\<close>, the default case\<close>
  | EndOfBarsBeforeCount       \<comment> \<open>found end of bars word (600000) before end of bars word count\<close>
  | NoteIndexOutOfRange        \<comment> \<open>\<^verbatim>\<open>read_bars\<close>: note index out of range\<close>
  | UnexpectedEndOfStream      \<comment> \<open>\<^verbatim>\<open>main\<close>: EOF in notes section\<close>
  | DivisionByZero             \<comment> \<open>undefined behaviour: integer division by zero\<close>
  | NotesBufferOverrun         \<comment> \<open>undefined behaviour: access past the 8192 words of \<^verbatim>\<open>notes\<close>\<close>

text \<open>
  A function of the programs either calls \<^verbatim>\<open>exit(1)\<close> (or, in \<^verbatim>\<open>main\<close>, returns 1),
  returns \<^verbatim>\<open>EOF\<close>, or returns 0. Each outcome carries the program state at that moment.
\<close>

datatype 'a outcome = Exit1 error 'a | RetEOF 'a | Ret0 'a

subsection \<open>The Frame Reader: \<^verbatim>\<open>rpb\<close>\<close>

text \<open>
  \<^verbatim>\<open>rpb\<close> is the same text in both programs. The \<^verbatim>\<open>for\<close> loop has no increment clause:
  \<open>i\<close> counts the data frames taken so far. The result is the returned word, the two
  counters written through the pointers, and the file position afterwards.
\<close>

fun rpb_loop :: "nat \<Rightarrow> u32 \<Rightarrow> u32 \<Rightarrow> u32 \<Rightarrow> stream \<Rightarrow> u32 \<times> u32 \<times> u32 \<times> stream" where
  "rpb_loop i word gap_frames inner_frames [] =
     (if i < 3 then (EOF_u32, gap_frames, inner_frames, [])
      else (word, gap_frames, inner_frames, []))"
| "rpb_loop i word gap_frames inner_frames (c # fp) =
     (if i < 3 then
        (if c AND 0x80 \<noteq> 0 then
           rpb_loop (i + 1) (push_bit 6 word OR ucast (c AND 0x3F)) gap_frames inner_frames fp
         else if i \<noteq> 0 then rpb_loop i word gap_frames (inner_frames + 1) fp
         else rpb_loop i word (gap_frames + 1) inner_frames fp)
      else (word, gap_frames, inner_frames, c # fp))"

definition rpb :: "stream \<Rightarrow> u32 \<times> u32 \<times> u32 \<times> stream" where
  "rpb fp = rpb_loop 0 0 0 0 fp"

subsection \<open>The Frame Writer: \<^verbatim>\<open>ppb\<close>\<close>

text \<open>The three bytes that \<^verbatim>\<open>ppb\<close> appends to the output file, in order.\<close>

definition ppb :: "u32 \<Rightarrow> u8 list" where
  "ppb word =
     [ucast (0x80 OR drop_bit 12 (word AND 0x3F000)),
      ucast (0x80 OR drop_bit 6 (word AND 0xFC0)),
      ucast (0x80 OR (word AND 0x3F))]"

subsection \<open>The Word Stream: \<^verbatim>\<open>read_next_word\<close> and \<^verbatim>\<open>peek_gap\<close>\<close>

text \<open>
  \<^verbatim>\<open>read_next_word\<close> (the same in both programs, apart from printing) either exits on
  inner blank frames, or returns \<^verbatim>\<open>EOF\<close>, or returns 0 with the word and an incremented
  word count. In each case the gap count of \<^verbatim>\<open>rpb\<close> is available to a caller that
  passed a non-null \<^verbatim>\<open>gap_frames\<close>. The parameter \<^verbatim>\<open>peek\<close> only selects what is printed.
\<close>

datatype rnw =
    Rnw_exit stream                 \<comment> \<open>\<^verbatim>\<open>exit(1)\<close>: file position\<close>
  | Rnw_EOF u32 stream              \<comment> \<open>returned \<^verbatim>\<open>EOF\<close>: gap frames, file position\<close>
  | Rnw_word u32 u32 stream u32     \<comment> \<open>returned 0: word, gap frames, file position, word count\<close>

definition read_next_word :: "stream \<Rightarrow> u32 \<Rightarrow> rnw" where
  "read_next_word fp_arg wc =
     (case rpb fp_arg of (word, gap_frames_int, inner_frames, fp') \<Rightarrow>
        if inner_frames \<noteq> 0 then Rnw_exit fp'
        else if word = EOF_u32 then Rnw_EOF gap_frames_int fp'
        else Rnw_word word gap_frames_int fp' (wc + 1))"

text \<open>
  \<^verbatim>\<open>peek_gap\<close> on a seekable file: the position is restored, so only the return value
  (\<open>True\<close> for \<^verbatim>\<open>EOF\<close>) and the gap count come back. Inner frames are not looked at.
\<close>

definition peek_gap :: "stream \<Rightarrow> bool \<times> u32" where
  "peek_gap fp_arg =
     (case rpb fp_arg of (word, gap_frames, inner_frames, fp') \<Rightarrow> (word = EOF_u32, gap_frames))"

subsection \<open>The Checksum Engine\<close>

definition add_1s_complement :: "u32 \<Rightarrow> u32 \<Rightarrow> u32" where
  "add_1s_complement a b =
     (let sum = a + b in ((sum AND 0x3FFFF) + drop_bit 18 sum) AND 0x3FFFF)"

text \<open>\<^verbatim>\<open>verify_checksum\<close> returns normally or calls \<^verbatim>\<open>exit(1)\<close>.\<close>

definition verify_checksum :: "u32 \<Rightarrow> u32 \<Rightarrow> error + unit" where
  "verify_checksum expected calculated =
     (if expected = calculated then Inr () else Inl ChecksumMismatchError)"

subsection \<open>The Note Model\<close>

definition NOTE_NAMES :: "string list" where
  "NOTE_NAMES = [''C'', ''C#'', ''D'', ''D#'', ''E'', ''F'', ''F#'', ''G'', ''G#'', ''A'', ''A#'', ''B'']"

definition REST_NAME :: string where
  "REST_NAME = ''r''"

definition ARTICULATION_NAMES :: "string list" where
  "ARTICULATION_NAMES = [''normal'', ''quarter'', ''half'', ''staccato'', ''legato'']"

record note_t =
  articulation :: u8
  triplet :: u8
  pitch :: u8
  duration :: u8
  note_duration :: u8
  note_pitch :: u8
  octave :: u8
  semi_tone :: u8
  note_name :: string

text \<open>
  \<^verbatim>\<open>parse_note\<close>. The division \<^verbatim>\<open>192 / (duration * (triplet ? 2 : 3))\<close> is done in
  \<^verbatim>\<open>int\<close>; the code has no guard, so a zero divisor is the error \<open>DivisionByZero\<close>, and
  it happens before the pitch fields are filled in.
\<close>

definition parse_note :: "u32 \<Rightarrow> error + note_t" where
  "parse_note word =
     (let articulation_v = (ucast ((drop_bit 14 word AND 0xC) OR drop_bit 13 (word AND 0x6000)) :: u8);
          triplet_v = (ucast (drop_bit 15 (word AND 0x8000)) :: u8);
          pitch_v = (ucast (drop_bit 7 word AND 0x3F) :: u8);
          duration_v = (ucast (word AND 0x7F) :: u8);
          divisor = uint duration_v * (if triplet_v \<noteq> 0 then 2 else 3)
      in if divisor = 0 then Inl DivisionByZero
         else
           let note_duration_v = (word_of_int (192 div divisor) :: u8) in
           if 1 < pitch_v then
             let note_pitch_v = pitch_v - 2;
                 octave_v = note_pitch_v div 12 + 1;
                 semi_tone_v = note_pitch_v mod 12
             in Inr \<lparr>articulation = articulation_v, triplet = triplet_v, pitch = pitch_v,
                      duration = duration_v, note_duration = note_duration_v,
                      note_pitch = note_pitch_v, octave = octave_v, semi_tone = semi_tone_v,
                      note_name = NOTE_NAMES ! unat semi_tone_v\<rparr>
           else Inr \<lparr>articulation = articulation_v, triplet = triplet_v, pitch = pitch_v,
                     duration = duration_v, note_duration = note_duration_v,
                     note_pitch = 0, octave = 0, semi_tone = 0, note_name = REST_NAME\<rparr>)"

definition decode_tempo_quarter :: "u32 \<Rightarrow> error + u32" where
  "decode_tempo_quarter tempo =
     (if tempo AND 0x7FFF = 0 then Inl DivisionByZero else Inr (11436 div (tempo AND 0x7FFF)))"

definition articulation_name :: "u32 \<Rightarrow> error + string" where
  "articulation_name a =
     (if a = 0 \<or> a = 1 \<or> a = 2 then Inr (ARTICULATION_NAMES ! unat a)
      else if a = 4 then Inr (ARTICULATION_NAMES ! 3)
      else if a = 8 then Inr (ARTICULATION_NAMES ! 4)
      else Inl InvalidArticulationError)"

text \<open>
  What \<^verbatim>\<open>read_notes\<close> does with a data word of a NOTES section (the last three branches
  of its \<^verbatim>\<open>if\<close> chain): the sentinel prints a bar line, a tempo word is decoded, and
  any other word is parsed as a note, whose articulation is looked up only when the
  pitch is above 1.
\<close>

datatype note_event = Bar_line | Tempo u32 | Note note_t

definition notes_data_word :: "u32 \<Rightarrow> error + note_event" where
  "notes_data_word word =
     (if word = 0x30000 then Inr Bar_line
      else if word AND 0x38000 = 0x38000 then
        (case decode_tempo_quarter word of Inl e \<Rightarrow> Inl e | Inr tempo \<Rightarrow> Inr (Tempo tempo))
      else
        (case parse_note word of
           Inl e \<Rightarrow> Inl e
         | Inr note \<Rightarrow>
             if 1 < pitch note then
               (case articulation_name (ucast (articulation note)) of
                  Inl e \<Rightarrow> Inl e
                | Inr name \<Rightarrow> Inr (Note note))
             else Inr (Note note)))"



section \<open>The section state machine\<close>

subsection \<open>Reading a word moves the file position forward\<close>

text \<open>
  The section loops below read words until a section ends or the file does. They
  terminate because every word that \<^verbatim>\<open>read_next_word\<close> delivers consumes at least one byte.
\<close>

lemma rpb_loop_length:
  "rpb_loop i word g inn fp_arg = (w', g', inn', fp') \<Longrightarrow>
     length fp' \<le> length fp_arg \<and> (i < 3 \<longrightarrow> fp_arg \<noteq> [] \<longrightarrow> length fp' < length fp_arg)"
proof (induction fp_arg arbitrary: i word g inn)
  case Nil
  then show ?case by (auto split: if_splits)
next
  case (Cons c fp_arg)
  show ?case
  proof (cases "i < 3")
    case False
    with Cons.prems show ?thesis by auto
  next
    case True
    note i3 = this
    show ?thesis
    proof (cases "c AND 0x80 \<noteq> 0")
      case True
      with i3 Cons.prems have "rpb_loop (i + 1) (push_bit 6 word OR ucast (c AND 0x3F)) g inn fp_arg = (w', g', inn', fp')"
        by simp
      from Cons.IH [OF this] show ?thesis by simp
    next
      case False
      note blank = this
      show ?thesis
      proof (cases "i = 0")
        case True
        with i3 blank Cons.prems have "rpb_loop i word (g + 1) inn fp_arg = (w', g', inn', fp')"
          by simp
        from Cons.IH [OF this] show ?thesis by simp
      next
        case False
        with i3 blank Cons.prems have "rpb_loop i word g (inn + 1) fp_arg = (w', g', inn', fp')"
          by simp
        from Cons.IH [OF this] show ?thesis by simp
      qed
    qed
  qed
qed

lemma rpb_empty: "rpb [] = (EOF_u32, 0, 0, [])"
  by (simp add: rpb_def)

lemma read_next_word_shorter:
  assumes "read_next_word fp_arg wc = Rnw_word w g fp' wc'"
  shows "length fp' < length fp_arg"
proof (cases fp_arg)
  case Nil
  with assms show ?thesis by (simp add: read_next_word_def rpb_empty EOF_u32_def)
next
  case (Cons c cs)
  obtain w1 g1 i1 f1 where r: "rpb fp_arg = (w1, g1, i1, f1)" by (cases "rpb fp_arg") auto
  with assms have "f1 = fp'" by (auto simp: read_next_word_def split: if_splits)
  moreover from r have "length f1 < length fp_arg"
    using rpb_loop_length [of 0 0 0 0 fp_arg w1 g1 i1 f1] Cons by (simp add: rpb_def)
  ultimately show ?thesis by simp
qed

subsection \<open>The decode consumer: \<^verbatim>\<open>decodehcint.c\<close>\<close>

text \<open>
  The variables of \<^verbatim>\<open>main\<close> that the section readers share: the input file, the running
  word count, the notes buffer (8192 words from \<^verbatim>\<open>malloc\<close>, so its initial contents are
  arbitrary) and the notes count. Printing is left out: it does not influence control
  flow. \<open>notes\<close> is a keyword of Isabelle, so the buffer is called \<open>notes_buf\<close>.
\<close>

record dstate =
  fp :: stream
  word_count :: u32
  notes_buf :: "nat \<Rightarrow> u32"
  notes_count :: u32

text \<open>
  \<^verbatim>\<open>read_notes\<close>: one run of the \<^verbatim>\<open>while (1)\<close> loop per word. The loop variables are the
  arguments. \<^verbatim>\<open>total_word_count\<close> is uninitialised before the first word, but it is not
  read then: \<^verbatim>\<open>part_word_count > 1\<close> fails first. A store past the end of the notes
  buffer is undefined behaviour and stops the model with \<open>NotesBufferOverrun\<close>.
\<close>

function read_notes_loop :: "u32 \<Rightarrow> u32 \<Rightarrow> u32 \<Rightarrow> dstate \<Rightarrow> dstate outcome" where
  "read_notes_loop part_word_count total_word_count checksum s =
     (case read_next_word (fp s) (word_count s) of
        Rnw_exit fp' \<Rightarrow> Exit1 InnerDropoutError (s\<lparr>fp := fp'\<rparr>)
      | Rnw_EOF g fp' \<Rightarrow> RetEOF (s\<lparr>fp := fp'\<rparr>)
      | Rnw_word word g fp' wc' \<Rightarrow>
          let s1 = s\<lparr>fp := fp', word_count := wc'\<rparr>;
              pwc = part_word_count + 1;
              in_data = (1 < pwc \<and> pwc < total_word_count + 2);
              checksum' = (if in_data then add_1s_complement checksum word else checksum)
          in
            if in_data \<and> \<not> unat (pwc - 2) < NOTES_BUFFER_SIZE then Exit1 NotesBufferOverrun s1
            else
              let s2 = (if in_data then s1\<lparr>notes_buf := (notes_buf s1)(unat (pwc - 2) := word)\<rparr> else s1) in
              if pwc = 1 then
                read_notes_loop pwc word checksum' (s2\<lparr>notes_count := word - 1\<rparr>)
              else if pwc = total_word_count + 2 then
                (case verify_checksum word checksum' of
                   Inl e \<Rightarrow> Exit1 e s2
                 | Inr _ \<Rightarrow> Ret0 s2)
              else
                (case notes_data_word word of
                   Inl e \<Rightarrow> Exit1 e s2
                 | Inr _ \<Rightarrow> read_notes_loop pwc total_word_count checksum' s2))"
  by pat_completeness auto
termination
  apply (relation "measure (\<lambda>(p, t, c, s). length (fp s))")
  apply (auto dest: read_next_word_shorter split: if_splits)
  done

declare read_notes_loop.simps [simp del]


definition read_notes :: "dstate \<Rightarrow> dstate outcome" where
  "read_notes s = read_notes_loop 0 0 0 s"

text \<open>
  The inner loop of \<^verbatim>\<open>read_bars\<close> that prints the notes of one measure: \<open>i\<close> is
  \<^verbatim>\<open>word + note_count\<close>, the index of \<^verbatim>\<open>measure_note\<close> in the buffer. The buffer is read
  before the index is compared with the notes count.
\<close>

function measure_loop :: "(nat \<Rightarrow> u32) \<Rightarrow> nat \<Rightarrow> u32 \<Rightarrow> error + unit" where
  "measure_loop buf i notes_count_arg =
     (if \<not> i < NOTES_BUFFER_SIZE then Inl NotesBufferOverrun
      else if buf i \<noteq> 0x30000 \<and> i < unat notes_count_arg then
        (case parse_note (buf i) of
           Inl e \<Rightarrow> Inl e
         | Inr note \<Rightarrow> measure_loop buf (i + 1) notes_count_arg)
      else Inr ())"
  by pat_completeness auto
termination
  by (relation "measure (\<lambda>(buf, i, n). NOTES_BUFFER_SIZE - i)") auto

declare measure_loop.simps [simp del]

text \<open>
  \<^verbatim>\<open>read_bars\<close>. It returns \<^verbatim>\<open>EOF\<close> both when \<^verbatim>\<open>read_next_word\<close> does and when the
  peek after a verified checksum does; \<^verbatim>\<open>peek_gap\<close> restores the file position.
\<close>

function read_bars_loop :: "u32 \<Rightarrow> u32 \<Rightarrow> u32 \<Rightarrow> dstate \<Rightarrow> dstate outcome" where
  "read_bars_loop part_word_count total_word_count checksum s =
     (case read_next_word (fp s) (word_count s) of
        Rnw_exit fp' \<Rightarrow> Exit1 InnerDropoutError (s\<lparr>fp := fp'\<rparr>)
      | Rnw_EOF gap_frames fp' \<Rightarrow> RetEOF (s\<lparr>fp := fp'\<rparr>)
      | Rnw_word word gap_frames fp' wc' \<Rightarrow>
          let s1 = s\<lparr>fp := fp', word_count := wc'\<rparr>;
              pwc = part_word_count + 1;
              in_data = (1 < pwc \<and> pwc < total_word_count + 2);
              checksum' = (if in_data then add_1s_complement checksum word else checksum)
          in
            if pwc = 1 then
              (if gap_frames = 0 then Exit1 MissingGapError s1
               else read_bars_loop pwc word checksum' s1)
            else if pwc = total_word_count + 2 then
              (case verify_checksum word checksum' of
                 Inl e \<Rightarrow> Exit1 e s1
               | Inr _ \<Rightarrow> if fst (peek_gap (fp s1)) then RetEOF s1 else Ret0 s1)
            else if word = 0x30000 then
              (if pwc \<noteq> total_word_count + 1 then Exit1 EndOfBarsBeforeCount s1
               else read_bars_loop pwc total_word_count checksum' s1)
            else if notes_count s1 \<le> word then Exit1 NoteIndexOutOfRange s1
            else
              (case measure_loop (notes_buf s1) (unat word) (notes_count s1) of
                 Inl e \<Rightarrow> Exit1 e s1
               | Inr _ \<Rightarrow> read_bars_loop pwc total_word_count checksum' s1))"
  by pat_completeness auto
termination
  apply (relation "measure (\<lambda>(p, t, c, s). length (fp s))")
  apply (auto dest: read_next_word_shorter split: if_splits)
  done

declare read_bars_loop.simps [simp del]

definition read_bars :: "dstate \<Rightarrow> dstate outcome" where
  "read_bars s = read_bars_loop 0 0 0 s"

text \<open>
  The voice loop of \<^verbatim>\<open>main\<close>: \<^verbatim>\<open>EOF\<close> from \<^verbatim>\<open>read_notes\<close> is \<^verbatim>\<open>return 1\<close>, \<^verbatim>\<open>EOF\<close> from
  \<^verbatim>\<open>read_bars\<close> is \<^verbatim>\<open>break\<close>, after which \<^verbatim>\<open>main\<close> returns 0.
\<close>

function main_loop :: "nat \<Rightarrow> dstate \<Rightarrow> dstate outcome" where
  "main_loop voice s =
     (if voice \<le> 4 then
        (case read_notes s of
           Exit1 e s' \<Rightarrow> Exit1 e s'
         | RetEOF s' \<Rightarrow> Exit1 UnexpectedEndOfStream s'
         | Ret0 s' \<Rightarrow>
             (case read_bars s' of
                Exit1 e s'' \<Rightarrow> Exit1 e s''
              | RetEOF s'' \<Rightarrow> Ret0 s''
              | Ret0 s'' \<Rightarrow> main_loop (voice + 1) s''))
      else Ret0 s)"
  by pat_completeness auto
termination
  by (relation "measure (\<lambda>(voice, s). 5 - voice)") auto

declare main_loop.simps [simp del]

definition decodehcint_main :: "(nat \<Rightarrow> u32) \<Rightarrow> stream \<Rightarrow> dstate outcome" where
  "decodehcint_main buf file =
     main_loop 1 \<lparr>fp = file, word_count = 0, notes_buf = buf, notes_count = 0\<rparr>"

subsection \<open>The re-encoding consumer: \<^verbatim>\<open>tweak.c\<close>\<close>

text \<open>
  The input file and the bytes written to the output file so far. In \<^verbatim>\<open>copy_notes\<close> the
  flag \<^verbatim>\<open>is_tempo\<close> is set only in the branch that substitutes a tempo word; every other
  branch that stays in the loop falls through to \<^verbatim>\<open>ppb(fp_out, word)\<close>. \<open>tempo\<close> is
  \<open>- 1\<close> when no override was given.
\<close>

record tstate =
  fp_in :: stream
  fp_out :: "u8 list"

function copy_notes_loop ::
  "u32 \<Rightarrow> u32 \<Rightarrow> u32 \<Rightarrow> u32 \<Rightarrow> u32 \<Rightarrow> u32 \<Rightarrow> tstate \<Rightarrow> tstate outcome" where
  "copy_notes_loop part_word_count total_word_count checksum new_checksum wc tempo s =
     (case read_next_word (fp_in s) wc of
        Rnw_exit fp' \<Rightarrow> Exit1 InnerDropoutError (s\<lparr>fp_in := fp'\<rparr>)
      | Rnw_EOF gap_frames fp' \<Rightarrow> RetEOF (s\<lparr>fp_in := fp'\<rparr>)
      | Rnw_word word gap_frames fp' wc' \<Rightarrow>
          let s1 = s\<lparr>fp_in := fp'\<rparr>;
              pwc = part_word_count + 1;
              in_data = (1 < pwc \<and> pwc < total_word_count + 2);
              checksum' = (if in_data then add_1s_complement checksum word else checksum)
          in
            if pwc = 1 then
              copy_notes_loop pwc word checksum' new_checksum wc' tempo
                (s1\<lparr>fp_out := fp_out s1 @ ppb word\<rparr>)
            else if pwc = total_word_count + 2 then
              (case verify_checksum word checksum' of
                 Inl e \<Rightarrow> Exit1 e s1
               | Inr _ \<Rightarrow> Ret0 (s1\<lparr>fp_out := fp_out s1 @ ppb new_checksum\<rparr>))
            else if word AND 0x38000 = 0x38000 \<and> tempo \<noteq> - 1 then
              (let new_word = 0x38000 OR (tempo AND 0x7FFF) in
                 copy_notes_loop pwc total_word_count checksum'
                   (add_1s_complement new_checksum new_word) wc' tempo
                   (s1\<lparr>fp_out := fp_out s1 @ ppb new_word\<rparr>))
            else
              copy_notes_loop pwc total_word_count checksum'
                (if in_data then add_1s_complement new_checksum word else new_checksum) wc' tempo
                (s1\<lparr>fp_out := fp_out s1 @ ppb word\<rparr>))"
  by pat_completeness auto
termination
  apply (relation "measure (\<lambda>(p, t, c, n, w, tm, s). length (fp_in s))")
  apply (auto dest: read_next_word_shorter split: if_splits)
  done

declare copy_notes_loop.simps [simp del]

definition copy_notes :: "u32 \<Rightarrow> tstate \<Rightarrow> tstate outcome" where
  "copy_notes tempo s = copy_notes_loop 0 0 0 0 0 tempo s"

function copy_bars_loop :: "u32 \<Rightarrow> u32 \<Rightarrow> u32 \<Rightarrow> u32 \<Rightarrow> tstate \<Rightarrow> tstate outcome" where
  "copy_bars_loop part_word_count total_word_count checksum wc s =
     (case read_next_word (fp_in s) wc of
        Rnw_exit fp' \<Rightarrow> Exit1 InnerDropoutError (s\<lparr>fp_in := fp'\<rparr>)
      | Rnw_EOF gap_frames fp' \<Rightarrow> RetEOF (s\<lparr>fp_in := fp'\<rparr>)
      | Rnw_word word gap_frames fp' wc' \<Rightarrow>
          let s1 = s\<lparr>fp_in := fp'\<rparr>;
              pwc = part_word_count + 1;
              in_data = (1 < pwc \<and> pwc < total_word_count + 2);
              checksum' = (if in_data then add_1s_complement checksum word else checksum)
          in
            if pwc = 1 then
              (if gap_frames = 0 then Exit1 MissingGapError s1
               else copy_bars_loop pwc word checksum' wc' (s1\<lparr>fp_out := fp_out s1 @ ppb word\<rparr>))
            else if pwc = total_word_count + 2 then
              (case verify_checksum word checksum' of
                 Inl e \<Rightarrow> Exit1 e s1
               | Inr _ \<Rightarrow>
                   let s2 = s1\<lparr>fp_out := fp_out s1 @ ppb word\<rparr> in
                   if fst (peek_gap (fp_in s2)) then RetEOF s2 else Ret0 s2)
            else
              copy_bars_loop pwc total_word_count checksum' wc' (s1\<lparr>fp_out := fp_out s1 @ ppb word\<rparr>))"
  by pat_completeness auto
termination
  apply (relation "measure (\<lambda>(p, t, c, w, s). length (fp_in s))")
  apply (auto dest: read_next_word_shorter split: if_splits)
  done

declare copy_bars_loop.simps [simp del]

definition copy_bars :: "tstate \<Rightarrow> tstate outcome" where
  "copy_bars s = copy_bars_loop 0 0 0 0 s"

section \<open>Frame codec\<close>

subsection \<open>Auxiliary facts about frames\<close>

lemma bit_128_int: "bit (128 :: int) n \<longleftrightarrow> n = 7"
proof -
  have "bit ((2 :: int) ^ 7) n \<longleftrightarrow> possible_bit TYPE(int) n \<and> n = 7"
    by (rule bit_exp_iff)
  then show ?thesis by simp
qed

lemma frame_is_data:
  "(ucast (0x80 OR x :: u32) :: u8) AND 0x80 \<noteq> 0"
proof -
  have "bit ((ucast (0x80 OR x :: u32) :: u8) AND 0x80) 7"
    by (simp add: bit_simps bit_128_int)
  then show ?thesis by (auto simp del: bit_and_iff)
qed

lemma frame_payload:
  "(ucast ((ucast (0x80 OR x :: u32) :: u8) AND 0x3F) :: u32) = take_bit 6 x"
proof -
  have e: "(0x3F :: u8) = mask 6" by (simp_all add: mask_eq_exp_minus_1)
  show ?thesis
    unfolding e by (rule bit_word_eqI) (auto simp: bit_simps bit_128_int)
qed

lemma assemble_word:
  assumes "w \<le> (0x3FFFF :: u32)"
  shows "push_bit 6 (push_bit 6 (take_bit 6 (drop_bit 12 (w AND 0x3F000)))
            OR take_bit 6 (drop_bit 6 (w AND 0xFC0)))
            OR take_bit 6 (w AND 0x3F) = w"
proof -
  have "w < 2 ^ 18" using assms by (simp add: word_le_nat_alt word_less_nat_alt)
  then have "take_bit 18 w = w"
    by (simp add: less_mask_eq take_bit_eq_mask)
  then have lo: "\<And>n. bit w n \<Longrightarrow> n < 18"
    by (metis bit_take_bit_iff)
  have m: "(0x3F000 :: u32) = push_bit 12 (mask 6)" "(0xFC0 :: u32) = push_bit 6 (mask 6)"
     "(0x3F :: u32) = mask 6" by (simp_all add: mask_eq_exp_minus_1)
  show ?thesis
    unfolding m
  proof (rule bit_word_eqI)
    fix n
    assume "n < LENGTH(32)"
    show "bit (push_bit 6 (push_bit 6 (take_bit 6 (drop_bit 12 (w AND push_bit 12 (mask 6))))
            OR take_bit 6 (drop_bit 6 (w AND push_bit 6 (mask 6))))
            OR take_bit 6 (w AND mask 6)) n = bit w n"
      by (cases "12 \<le> n") (auto simp: bit_simps dest: lo)
  qed
qed

lemma rpb_loop_done: "\<not> i < 3 \<Longrightarrow> rpb_loop i w g inn fp_arg = (w, g, inn, fp_arg)"
  by (cases fp_arg) auto

lemma rpb_loop_ppb:
  assumes "w \<le> 0x3FFFF"
  shows "rpb_loop 0 0 g 0 (ppb w @ rest) = (w, g, 0, rest)"
proof -
  have "rpb_loop 0 0 g 0 (ppb w @ rest) =
          (push_bit 6 (push_bit 6 (take_bit 6 (drop_bit 12 (w AND 0x3F000)))
             OR take_bit 6 (drop_bit 6 (w AND 0xFC0)))
             OR take_bit 6 (w AND 0x3F), g, 0, rest)"
    by (simp add: ppb_def frame_is_data frame_payload rpb_loop_done
          del: push_bit_or push_bit_take_bit push_bit_and)
  then show ?thesis by (simp only: assemble_word [OF assms])
qed

lemma rpb_loop_gap:
  "rpb_loop 0 w g inn (replicate n 0 @ fp_arg) = rpb_loop 0 w (g + of_nat n) inn fp_arg"
  by (induction n arbitrary: g) (simp_all add: ac_simps)

lemma rpb_gap_ppb:
  assumes "w \<le> 0x3FFFF"
  shows "rpb (replicate n 0 @ ppb w @ rest) = (w, of_nat n, 0, rest)"
  by (simp add: rpb_def rpb_loop_gap rpb_loop_ppb [OF assms])

lemma word18_not_EOF: "w \<le> 0x3FFFF \<Longrightarrow> w \<noteq> EOF_u32"
  by (auto simp: EOF_u32_def word_le_nat_alt unsigned_minus_1_eq_mask mask_eq_exp_minus_1)

lemma read_next_word_ppb:
  assumes "w \<le> 0x3FFFF"
  shows "read_next_word (replicate n 0 @ ppb w @ rest) wc = Rnw_word w (of_nat n) rest (wc + 1)"
  by (simp add: read_next_word_def rpb_gap_ppb [OF assms] word18_not_EOF [OF assms])

subsection \<open>Round trip of one word\<close>

text \<open>
  Claim C1. For every 18-bit word \<open>w\<close> (a \<^verbatim>\<open>uint32_t\<close> not above \<^verbatim>\<open>0777777\<close>), the three
  frames that \<^verbatim>\<open>ppb\<close> writes for \<open>w\<close>, read back by \<^verbatim>\<open>rpb\<close>, give \<open>w\<close> again, with zero
  gap frames and zero inner frames, and leave the file position right after the three
  frames.
\<close>

theorem rpb_ppb_roundtrip:
  assumes "w \<le> 0x3FFFF"
  shows "rpb (ppb w @ rest) = (w, 0, 0, rest)"
  by (simp add: rpb_def rpb_loop_ppb [OF assms])

theorem rpb_ppb_roundtrip_witness:
  "(0x2ABCD :: u32) \<le> 0x3FFFF \<and> rpb (ppb 0x2ABCD @ [0, 0x85]) = (0x2ABCD, 0, 0, [0, 0x85])"
  using rpb_ppb_roundtrip [of "0x2ABCD" "[0, 0x85]"] by simp

subsection \<open>The marker bits of a frame\<close>

text \<open>
  Two frames that differ at most in bit \<^verbatim>\<open>0100\<close>, the 7th bit (\<^verbatim>\<open>0277 = 0xBF\<close> masks it out).
\<close>

definition differ_only_in_bit7 :: "u8 \<Rightarrow> u8 \<Rightarrow> bool" where
  "differ_only_in_bit7 c c' = (c AND 0xBF = c' AND 0xBF)"

lemma bit_64_int: "bit (64 :: int) n \<longleftrightarrow> n = 6"
proof -
  have "bit ((2 :: int) ^ 6) n \<longleftrightarrow> possible_bit TYPE(int) n \<and> n = 6"
    by (rule bit_exp_iff)
  then show ?thesis by simp
qed

lemma frame_bit7_clear:
  "(ucast (0x80 OR drop_bit k (w AND push_bit k (mask 6)) :: u32) :: u8) AND 0x40 = 0"
  by (rule bit_word_eqI) (auto simp: bit_simps bit_128_int bit_64_int)

lemma ppb_frames:
  assumes "f \<in> set (ppb w)"
  shows "f AND 0x80 \<noteq> 0 \<and> f AND 0x40 = 0"
proof -
  have m: "(0x3F000 :: u32) = push_bit 12 (mask 6)" "(0xFC0 :: u32) = push_bit 6 (mask 6)"
     "(0x3F :: u32) = push_bit 0 (mask 6)" by (simp_all add: mask_eq_exp_minus_1)
  have "w AND 0x3F = drop_bit 0 (w AND push_bit 0 (mask 6))"
    by (simp add: mask_eq_exp_minus_1)
  then have "(ucast (0x80 OR (w AND 0x3F)) :: u8) AND 0x40 = 0"
    by (simp only: frame_bit7_clear)
  moreover have "(ucast (0x80 OR drop_bit 12 (w AND 0x3F000)) :: u8) AND 0x40 = 0"
    unfolding m by (rule frame_bit7_clear)
  moreover have "(ucast (0x80 OR drop_bit 6 (w AND 0xFC0)) :: u8) AND 0x40 = 0"
    unfolding m by (rule frame_bit7_clear)
  ultimately show ?thesis
    using assms frame_is_data by (auto simp: ppb_def)
qed

lemma same_but_bit7:
  assumes "differ_only_in_bit7 c c'"
  shows "c AND 0x80 = c' AND 0x80" and "c AND 0x3F = c' AND 0x3F"
proof -
  have "c AND 0x80 = (c AND 0xBF) AND 0x80" "c' AND 0x80 = (c' AND 0xBF) AND 0x80"
    by (simp_all add: and.assoc)
  with assms show "c AND 0x80 = c' AND 0x80" by (simp add: differ_only_in_bit7_def)
  have "c AND 0x3F = (c AND 0xBF) AND 0x3F" "c' AND 0x3F = (c' AND 0xBF) AND 0x3F"
    by (simp_all add: and.assoc)
  with assms show "c AND 0x3F = c' AND 0x3F" by (simp add: differ_only_in_bit7_def)
qed

lemma rpb_loop_ignores_bit7:
  assumes "list_all2 differ_only_in_bit7 fp1 fp2"
  shows "(case rpb_loop i w g inn fp1 of (w1, g1, i1, r1) \<Rightarrow>
           case rpb_loop i w g inn fp2 of (w2, g2, i2, r2) \<Rightarrow>
             w1 = w2 \<and> g1 = g2 \<and> i1 = i2 \<and> list_all2 differ_only_in_bit7 r1 r2)"
  using assms
proof (induction fp1 fp2 arbitrary: i w g inn rule: list_all2_induct)
  case Nil
  then show ?case by simp
next
  case (Cons c fp1 c' fp2)
  from same_but_bit7 [OF Cons.hyps(1)]
  have d: "c AND 0x80 = c' AND 0x80" and p: "c AND 0x3F = c' AND 0x3F" by simp_all
  show ?case
  proof (cases "i < 3")
    case False
    with Cons.hyps show ?thesis by simp
  next
    case True
    note i3 = this
    show ?thesis
    proof (cases "c AND 0x80 \<noteq> 0")
      case True
      with i3 d p Cons.IH [of "i + 1" "push_bit 6 w OR ucast (c AND 0x3F)" g inn]
      show ?thesis by (simp del: push_bit_or)
    next
      case False
      with i3 d Cons.IH [of i w g "inn + 1"] Cons.IH [of i w "g + 1" inn]
      show ?thesis by (cases "i = 0") simp_all
    qed
  qed
qed

text \<open>
  Claim C6, as the code has it. Every frame that \<^verbatim>\<open>ppb\<close> writes has the 8th bit
  (\<^verbatim>\<open>0200\<close>, the data marker) set and the 7th bit (\<^verbatim>\<open>0100\<close>) clear. \<^verbatim>\<open>rpb\<close> ignores the
  7th bit: on two files whose frames differ at most in that bit it returns the same
  word, the same gap count and the same inner count, and stops at the same position.
\<close>

theorem ppb_marker_bits_rpb_ignores_bit7:
  "(\<forall>f \<in> set (ppb w). f AND 0x80 \<noteq> 0 \<and> f AND 0x40 = 0) \<and>
   (list_all2 differ_only_in_bit7 fp1 fp2 \<longrightarrow>
      (case rpb fp1 of (w1, g1, i1, r1) \<Rightarrow>
         case rpb fp2 of (w2, g2, i2, r2) \<Rightarrow>
           w1 = w2 \<and> g1 = g2 \<and> i1 = i2 \<and> list_all2 differ_only_in_bit7 r1 r2))"
  using ppb_frames [of _ w] rpb_loop_ignores_bit7 [of fp1 fp2 0 0 0 0]
  by (auto simp: rpb_def)

theorem ppb_marker_bits_rpb_ignores_bit7_witness:
  "ppb 0x2ABCD = [0xAA, 0xAF, 0x8D] \<and>
   (0xAA :: u8) AND 0x80 \<noteq> 0 \<and> (0xAA :: u8) AND 0x40 = 0 \<and>
   list_all2 differ_only_in_bit7 [0xAA, 0xAF, 0x8D, 0x01] [0xEA, 0xAF, 0xCD, 0x41] \<and>
   rpb [0xAA, 0xAF, 0x8D, 0x01] = (0x2ABCD, 0, 0, [0x01]) \<and>
   rpb [0xEA, 0xAF, 0xCD, 0x41] = (0x2ABCD, 0, 0, [0x41])"
  using ppb_marker_bits_rpb_ignores_bit7
    [of "0x2ABCD" "[0xAA, 0xAF, 0x8D, 0x01]" "[0xEA, 0xAF, 0xCD, 0x41]"]
  by (simp add: ppb_def rpb_def differ_only_in_bit7_def)

text \<open>
  The frames of the word 0 are all \<^verbatim>\<open>0200\<close>: the 7th bit is not set in any of them.
\<close>

theorem ppb_bit7_counterexample:
  "ppb 0 = [0x80, 0x80, 0x80] \<and> (0x80 :: u8) AND 0x40 = 0"
  by (simp add: ppb_def)

section \<open>Checksum engine\<close>

subsection \<open>End-around-carry addition on 18-bit operands\<close>

lemma and_mask18: "(x :: u32) AND 0x3FFFF = x mod 262144"
proof -
  have "(0x3FFFF :: u32) = mask 18" by (simp add: mask_eq_exp_minus_1)
  then have "x AND 0x3FFFF = take_bit 18 x" by (simp only: take_bit_eq_mask)
  also have "\<dots> = x mod 2 ^ 18" by (rule take_bit_eq_mod)
  finally show ?thesis by simp
qed

lemma drop_bit18: "drop_bit 18 (x :: u32) = x div 262144"
proof -
  have "drop_bit 18 x = x div 2 ^ 18" by (rule drop_bit_eq_div)
  then show ?thesis by simp
qed


lemma add_1s_complement_unat:
  assumes "a \<le> 0x3FFFF" "b \<le> 0x3FFFF"
  shows "unat (add_1s_complement a b) =
           (if unat a + unat b < 262144 then unat a + unat b else unat a + unat b - 262143)"
proof -
  have a: "unat a \<le> 262143" and b: "unat b \<le> 262143"
    using assms by (simp_all add: word_le_nat_alt)
  have s: "unat (a + b) = unat a + unat b"
    using a b by (simp add: unat_add_lem [THEN iffD1])
  have lo: "unat ((a + b) mod 262144) = (unat a + unat b) mod 262144"
    by (simp add: unat_mod s)
  have hi: "unat ((a + b) div 262144) = (unat a + unat b) div 262144"
    by (simp add: unat_div s)
  have lo_b: "(unat a + unat b) mod 262144 < 262144" by simp
  have hi_b: "(unat a + unat b) div 262144 \<le> 1" using a b by simp
  have t: "unat ((a + b) mod 262144 + (a + b) div 262144) =
             (unat a + unat b) mod 262144 + (unat a + unat b) div 262144"
    using lo_b hi_b by (simp add: unat_add_lem [THEN iffD1] lo hi)
  have "unat (add_1s_complement a b) =
          ((unat a + unat b) mod 262144 + (unat a + unat b) div 262144) mod 262144"
    by (simp add: add_1s_complement_def Let_def and_mask18 drop_bit18 unat_mod t)
  also have "\<dots> = (if unat a + unat b < 262144 then unat a + unat b else unat a + unat b - 262143)"
  proof (cases "unat a + unat b < 262144")
    case True
    then show ?thesis by simp
  next
    case False
    then have "(unat a + unat b) div 262144 = 1" "(unat a + unat b) mod 262144 = unat a + unat b - 262144"
      using a b by (simp_all add: div_nat_eqI mod_if)
    with False a b show ?thesis by simp
  qed
  finally show ?thesis .
qed

subsection \<open>The checksum of a section\<close>

text \<open>
  Every section loop starts with \<^verbatim>\<open>checksum = 0\<close> and runs
  \<^verbatim>\<open>checksum = add_1s_complement(checksum, word)\<close> for each data word in the order read.
\<close>

definition fold_checksum :: "u32 list \<Rightarrow> u32" where
  "fold_checksum ws = foldl add_1s_complement 0 ws"

lemma add_1s_complement_le:
  assumes "a \<le> 0x3FFFF" "b \<le> 0x3FFFF"
  shows "add_1s_complement a b \<le> 0x3FFFF"
proof -
  have "unat a \<le> 262143" "unat b \<le> 262143"
    using assms by (simp_all add: word_le_nat_alt)
  then have "unat (add_1s_complement a b) \<le> 262143"
    unfolding add_1s_complement_unat [OF assms] by (cases "unat a + unat b < 262144") simp_all
  then show ?thesis by (simp add: word_le_nat_alt)
qed

lemma add_1s_complement_mod:
  assumes "a \<le> 0x3FFFF" "b \<le> 0x3FFFF"
  shows "unat (add_1s_complement a b) mod 262143 = (unat a + unat b) mod 262143"
proof (cases "unat a + unat b < 262144")
  case True
  then show ?thesis by (simp add: add_1s_complement_unat [OF assms])
next
  case False
  then have "unat a + unat b = (unat a + unat b - 262143) + 262143" by simp
  then have "(unat a + unat b) mod 262143 = (unat a + unat b - 262143) mod 262143"
    by (metis mod_add_self2)
  with False show ?thesis by (simp add: add_1s_complement_unat [OF assms])
qed

lemma add_1s_complement_eq_0:
  assumes "a \<le> 0x3FFFF" "b \<le> 0x3FFFF"
  shows "add_1s_complement a b = 0 \<longleftrightarrow> a = 0 \<and> b = 0"
proof -
  have "add_1s_complement a b = 0 \<longleftrightarrow> unat (add_1s_complement a b) = 0"
    by (simp add: unat_eq_0)
  also have "\<dots> \<longleftrightarrow> unat a = 0 \<and> unat b = 0"
    by (auto simp: add_1s_complement_unat [OF assms])
  finally show ?thesis by (simp add: unat_eq_0)
qed

lemma foldl_checksum_le:
  assumes "acc \<le> 0x3FFFF" "\<forall>w \<in> set ws. w \<le> 0x3FFFF"
  shows "foldl add_1s_complement acc ws \<le> 0x3FFFF"
  using assms by (induction ws arbitrary: acc) (simp_all add: add_1s_complement_le)

lemma foldl_checksum_mod:
  assumes "acc \<le> 0x3FFFF" "\<forall>w \<in> set ws. w \<le> 0x3FFFF"
  shows "unat (foldl add_1s_complement acc ws) mod 262143 =
           (unat acc + sum_list (map unat ws)) mod 262143"
  using assms
proof (induction ws arbitrary: acc)
  case Nil
  then show ?case by simp
next
  case (Cons w ws)
  then have w: "w \<le> 0x3FFFF" and ws: "\<forall>w \<in> set ws. w \<le> 0x3FFFF" by simp_all
  have "unat (foldl add_1s_complement (add_1s_complement acc w) ws) mod 262143 =
          (unat (add_1s_complement acc w) + sum_list (map unat ws)) mod 262143"
    by (rule Cons.IH [OF add_1s_complement_le [OF Cons.prems(1) w] ws])
  also have "\<dots> = (unat (add_1s_complement acc w) mod 262143 + sum_list (map unat ws)) mod 262143"
    by (simp add: mod_add_left_eq)
  also have "\<dots> = ((unat acc + unat w) mod 262143 + sum_list (map unat ws)) mod 262143"
    by (simp only: add_1s_complement_mod [OF Cons.prems(1) w])
  also have "\<dots> = (unat acc + sum_list (map unat (w # ws))) mod 262143"
    by (simp add: mod_add_left_eq add.assoc)
  finally show ?case by simp
qed

lemma foldl_checksum_eq_0:
  assumes "acc \<le> 0x3FFFF" "\<forall>w \<in> set ws. w \<le> 0x3FFFF"
  shows "foldl add_1s_complement acc ws = 0 \<longleftrightarrow> acc = 0 \<and> (\<forall>w \<in> set ws. w = 0)"
  using assms
  by (induction ws arbitrary: acc) (auto simp: add_1s_complement_le add_1s_complement_eq_0)

lemma mod_le_modulus:
  fixes n M :: nat
  assumes "n \<le> M"
  shows "n mod M = (if n = M then 0 else n)"
  using assms by auto

lemma mod_shift_eq_iff:
  fixes a b s M :: nat
  assumes "a \<le> M" "b \<le> M" "0 < M"
  shows "(s + a) mod M = (s + b) mod M \<longleftrightarrow> a = b \<or> (a = 0 \<and> b = M) \<or> (a = M \<and> b = 0)"
proof -
  have le: "(s + y) mod M = (s + x) mod M \<longleftrightarrow> x = y \<or> (x = 0 \<and> y = M)"
    if "x \<le> y" "y \<le> M" for x y :: nat
  proof -
    have "(s + y) mod M = (s + x) mod M \<longleftrightarrow> M dvd (s + y) - (s + x)"
      using that by (intro mod_eq_dvd_iff_nat) simp
    also have "\<dots> \<longleftrightarrow> M dvd y - x" by simp
    also have "\<dots> \<longleftrightarrow> y - x = 0 \<or> y - x = M"
    proof
      assume d: "M dvd y - x"
      show "y - x = 0 \<or> y - x = M"
      proof (cases "y - x = 0")
        case False
        with d have "M \<le> y - x" by (intro dvd_imp_le) simp_all
        with that show ?thesis by arith
      qed simp
    qed auto
    also have "\<dots> \<longleftrightarrow> x = y \<or> (x = 0 \<and> y = M)"
      using that assms(3) by auto
    finally show ?thesis .
  qed
  show ?thesis
  proof (cases "a \<le> b")
    case True
    have "(s + a) mod M = (s + b) mod M \<longleftrightarrow> (s + b) mod M = (s + a) mod M"
      by (rule eq_commute)
    also note le [OF True assms(2)]
    finally show ?thesis using True assms by auto
  next
    case False
    then have "b \<le> a" by simp
    from le [OF this assms(1)] False assms show ?thesis by auto
  qed
qed

lemma word18_eq_iff:
  assumes "x \<le> (0x3FFFF :: u32)" "y \<le> 0x3FFFF"
  shows "x = y \<longleftrightarrow> unat x mod 262143 = unat y mod 262143 \<and> (x = 0 \<longleftrightarrow> y = 0)"
proof -
  have x: "unat x \<le> 262143" and y: "unat y \<le> 262143"
    using assms by (simp_all add: word_le_nat_alt)
  have z: "x = 0 \<longleftrightarrow> unat x = 0" "y = 0 \<longleftrightarrow> unat y = 0"
    by (simp_all add: unat_eq_0)
  have e: "x = y \<longleftrightarrow> unat x = unat y"
    by (rule word_unat_eq_iff)
  have "unat x = unat y \<longleftrightarrow>
          unat x mod 262143 = unat y mod 262143 \<and> (unat x = 0 \<longleftrightarrow> unat y = 0)"
    unfolding mod_le_modulus [OF x] mod_le_modulus [OF y] by auto
  then show ?thesis unfolding z e .
qed

lemma word18_cong_iff:
  assumes "x \<le> (0x3FFFF :: u32)" "y \<le> 0x3FFFF"
  shows "(s + unat x) mod 262143 = (s + unat y) mod 262143 \<longleftrightarrow>
           x = y \<or> (x = 0 \<and> y = 0x3FFFF) \<or> (x = 0x3FFFF \<and> y = 0)"
proof -
  have x: "unat x \<le> 262143" and y: "unat y \<le> 262143"
    using assms by (simp_all add: word_le_nat_alt)
  have "(s + unat x) mod 262143 = (s + unat y) mod 262143 \<longleftrightarrow>
          unat x = unat y \<or> (unat x = 0 \<and> unat y = 262143) \<or> (unat x = 262143 \<and> unat y = 0)"
    by (rule mod_shift_eq_iff [OF x y]) simp
  also have "\<dots> \<longleftrightarrow> x = y \<or> (x = 0 \<and> y = 0x3FFFF) \<or> (x = 0x3FFFF \<and> y = 0)"
    by (simp add: word_unat_eq_iff [of x] word_unat_eq_iff [of y])
  finally show ?thesis .
qed


lemma fold_checksum_replace:
  assumes xs: "\<forall>x \<in> set xs. x \<le> 0x3FFFF" and ys: "\<forall>y \<in> set ys. y \<le> 0x3FFFF"
    and w: "w \<le> 0x3FFFF" and w': "w' \<le> 0x3FFFF"
  shows "fold_checksum (xs @ w' # ys) = fold_checksum (xs @ w # ys) \<longleftrightarrow>
           w' = w \<or>
           ((w = 0 \<and> w' = 0x3FFFF \<or> w = 0x3FFFF \<and> w' = 0) \<and> (\<exists>x \<in> set xs \<union> set ys. x \<noteq> 0))"
proof -
  let ?A = "fold_checksum (xs @ w # ys)" and ?B = "fold_checksum (xs @ w' # ys)"
  let ?S = "sum_list (map unat xs) + sum_list (map unat ys)"
  have all: "\<forall>x \<in> set (xs @ w # ys). x \<le> 0x3FFFF" "\<forall>x \<in> set (xs @ w' # ys). x \<le> 0x3FFFF"
    using xs ys w w' by auto
  have z: "(0 :: u32) \<le> 0x3FFFF" by simp
  have A_le: "?A \<le> 0x3FFFF" and B_le: "?B \<le> 0x3FFFF"
    unfolding fold_checksum_def by (rule foldl_checksum_le [OF z all(1)], rule foldl_checksum_le [OF z all(2)])
  have A_mod: "unat ?A mod 262143 = (?S + unat w) mod 262143"
    unfolding fold_checksum_def foldl_checksum_mod [OF z all(1)] by (simp add: ac_simps)
  have B_mod: "unat ?B mod 262143 = (?S + unat w') mod 262143"
    unfolding fold_checksum_def foldl_checksum_mod [OF z all(2)] by (simp add: ac_simps)
  have A_0: "?A = 0 \<longleftrightarrow> w = 0 \<and> \<not> (\<exists>x \<in> set xs \<union> set ys. x \<noteq> 0)"
    unfolding fold_checksum_def foldl_checksum_eq_0 [OF z all(1)] by auto
  have B_0: "?B = 0 \<longleftrightarrow> w' = 0 \<and> \<not> (\<exists>x \<in> set xs \<union> set ys. x \<noteq> 0)"
    unfolding fold_checksum_def foldl_checksum_eq_0 [OF z all(2)] by auto
  have nz: "(0x3FFFF :: u32) \<noteq> 0" by simp
  have "?B = ?A \<longleftrightarrow> (?S + unat w') mod 262143 = (?S + unat w) mod 262143 \<and> (?B = 0 \<longleftrightarrow> ?A = 0)"
    unfolding word18_eq_iff [OF B_le A_le] A_mod B_mod ..
  also have "\<dots> \<longleftrightarrow> (w' = w \<or> (w' = 0 \<and> w = 0x3FFFF) \<or> (w' = 0x3FFFF \<and> w = 0)) \<and> (?B = 0 \<longleftrightarrow> ?A = 0)"
    unfolding word18_cong_iff [OF w' w] ..
  also have "\<dots> \<longleftrightarrow> w' = w \<or>
           ((w = 0 \<and> w' = 0x3FFFF \<or> w = 0x3FFFF \<and> w' = 0) \<and> (\<exists>x \<in> set xs \<union> set ys. x \<noteq> 0))"
    unfolding A_0 B_0 using nz by blast
  finally show ?thesis .
qed

text \<open>
  Claim C2, as the code has it. For every sequence of 18-bit data words, verifying the
  folded checksum against itself succeeds. When the word at position \<open>i\<close> is replaced by an
  18-bit word \<open>w'\<close>, verifying the new fold against the original checksum still succeeds
  exactly when \<open>w'\<close> is the original word, or when the two words are \<^verbatim>\<open>0\<close> and \<^verbatim>\<open>0777777\<close>
  (the two zeros of end-around-carry arithmetic) and some other word of the sequence is
  not 0. Every other replacement is detected.
\<close>

theorem checksum_detects_mutation:
  assumes "\<forall>w \<in> set ws. w \<le> 0x3FFFF" and "i < length ws" and "w' \<le> 0x3FFFF"
  shows "verify_checksum (fold_checksum ws) (fold_checksum ws) = Inr () \<and>
         (verify_checksum (fold_checksum ws) (fold_checksum (ws[i := w'])) = Inr () \<longleftrightarrow>
            w' = ws ! i \<or>
            ((ws ! i = 0 \<and> w' = 0x3FFFF \<or> ws ! i = 0x3FFFF \<and> w' = 0) \<and>
             (\<exists>j < length ws. j \<noteq> i \<and> ws ! j \<noteq> 0)))"
proof -
  let ?xs = "take i ws" and ?ys = "drop (Suc i) ws"
  have ws: "ws = ?xs @ ws ! i # ?ys"
    using assms(2) by (rule id_take_nth_drop)
  have ws': "ws[i := w'] = ?xs @ w' # ?ys"
    using assms(2) by (rule upd_conv_take_nth_drop)
  have xs: "\<forall>x \<in> set ?xs. x \<le> 0x3FFFF" and ys: "\<forall>y \<in> set ?ys. y \<le> 0x3FFFF"
    using assms(1) by (auto dest: in_set_takeD in_set_dropD)
  have w: "ws ! i \<le> 0x3FFFF" using assms(1,2) by simp
  have others: "(\<exists>x \<in> set ?xs \<union> set ?ys. x \<noteq> 0) \<longleftrightarrow> (\<exists>j < length ws. j \<noteq> i \<and> ws ! j \<noteq> 0)"
  proof
    assume "\<exists>x \<in> set ?xs \<union> set ?ys. x \<noteq> 0"
    then obtain x where "x \<in> set ?xs \<union> set ?ys" "x \<noteq> 0" by blast
    then consider "x \<in> set ?xs" | "x \<in> set ?ys" by blast
    then show "\<exists>j < length ws. j \<noteq> i \<and> ws ! j \<noteq> 0"
    proof cases
      case 1
      then obtain j where "j < length ?xs" "?xs ! j = x" by (auto simp: in_set_conv_nth)
      with \<open>x \<noteq> 0\<close> assms(2) show ?thesis by (intro exI [of _ j]) auto
    next
      case 2
      then obtain j where "j < length ?ys" "?ys ! j = x" by (auto simp: in_set_conv_nth)
      with \<open>x \<noteq> 0\<close> assms(2) show ?thesis by (intro exI [of _ "Suc i + j"]) auto
    qed
  next
    assume "\<exists>j < length ws. j \<noteq> i \<and> ws ! j \<noteq> 0"
    then obtain j where j: "j < length ws" "j \<noteq> i" "ws ! j \<noteq> 0" by blast
    show "\<exists>x \<in> set ?xs \<union> set ?ys. x \<noteq> 0"
    proof (cases "j < i")
      case True
      with j have "ws ! j \<in> set ?xs" by (auto simp: in_set_conv_nth intro!: exI [of _ j])
      with j show ?thesis by blast
    next
      case False
      with j have "ws ! j = ?ys ! (j - Suc i)" "j - Suc i < length ?ys" by auto
      then have "ws ! j \<in> set ?ys" by (metis nth_mem)
      with j show ?thesis by blast
    qed
  qed
  have "fold_checksum (ws[i := w']) = fold_checksum ws \<longleftrightarrow>
          fold_checksum (?xs @ w' # ?ys) = fold_checksum (?xs @ ws ! i # ?ys)"
    using ws ws' by simp
  also note fold_checksum_replace [OF xs ys w assms(3)]
  finally have "fold_checksum (ws[i := w']) = fold_checksum ws \<longleftrightarrow>
      w' = ws ! i \<or>
      ((ws ! i = 0 \<and> w' = 0x3FFFF \<or> ws ! i = 0x3FFFF \<and> w' = 0) \<and>
       (\<exists>j < length ws. j \<noteq> i \<and> ws ! j \<noteq> 0))"
    unfolding others .
  then show ?thesis by (auto simp: verify_checksum_def)
qed

theorem checksum_detects_mutation_witness:
  "verify_checksum (fold_checksum [5, 0x3FFFE, 7]) (fold_checksum [5, 0x3FFFE, 7]) = Inr () \<and>
   fold_checksum [5, 0x3FFFE, 7] = 11 \<and> fold_checksum ([5, 0x3FFFE, 7][1 := 9]) = 21 \<and>
   verify_checksum (fold_checksum [5, 0x3FFFE, 7]) (fold_checksum ([5, 0x3FFFE, 7][1 := 9])) =
     Inl ChecksumMismatchError"
  using checksum_detects_mutation [of "[5, 0x3FFFE, 7]" 1 9]
  by (simp add: verify_checksum_def fold_checksum_def add_1s_complement_def)

text \<open>
  In the sequence \<^verbatim>\<open>1, 0\<close> the second word is replaced by \<^verbatim>\<open>0777777\<close>: the checksum stays 1.
\<close>

theorem checksum_mutation_counterexample:
  "(0x3FFFF :: u32) \<noteq> [1, 0] ! 1 \<and>
   fold_checksum ([1, 0][1 := 0x3FFFF]) = fold_checksum [1, 0] \<and>
   verify_checksum (fold_checksum [1, 0]) (fold_checksum ([1, 0][1 := 0x3FFFF])) = Inr ()"
  by (simp add: verify_checksum_def fold_checksum_def add_1s_complement_def)

section \<open>Note model\<close>

subsection \<open>The unguarded divisions\<close>

lemma duration_field_eq_0:
  "(ucast (word AND 0x7F :: u32) :: u8) = 0 \<longleftrightarrow> word AND 0x7F = 0"
proof -
  have m: "(0x7F :: u32) = mask 7" by (simp add: mask_eq_exp_minus_1)
  show ?thesis
    unfolding m
    apply (auto simp: bit_eq_iff bit_simps)
     apply (drule_tac x = n in spec, simp)+
    done
qed

lemma parse_note_divisor:
  "uint (d :: u8) * (if t \<noteq> (0 :: u8) then 2 else 3) = 0 \<longleftrightarrow> d = 0"
  by (auto simp: uint_0_iff)

lemma parse_note_error_iff:
  "parse_note word = Inl e \<longleftrightarrow> e = DivisionByZero \<and> word AND 0x7F = 0"
  unfolding parse_note_def Let_def parse_note_divisor duration_field_eq_0
  by auto

lemma parse_note_ok_iff:
  "(\<exists>note. parse_note word = Inr note) \<longleftrightarrow> word AND 0x7F \<noteq> 0"
  unfolding parse_note_def Let_def parse_note_divisor duration_field_eq_0
  by auto

lemma decode_tempo_quarter_error_iff:
  "decode_tempo_quarter tempo = Inl e \<longleftrightarrow> e = DivisionByZero \<and> tempo AND 0x7FFF = 0"
  by (auto simp: decode_tempo_quarter_def)

lemma articulation_name_error:
  "articulation_name a = Inl e \<Longrightarrow> e = InvalidArticulationError"
  by (auto simp: articulation_name_def split: if_splits)

lemma notes_data_word_div0_iff:
  "notes_data_word word = Inl DivisionByZero \<longleftrightarrow>
     word \<noteq> 0x30000 \<and>
     (if word AND 0x38000 = 0x38000 then word AND 0x7FFF = 0 else word AND 0x7F = 0)"
proof (cases "word = 0x30000")
  case True
  then show ?thesis by (simp add: notes_data_word_def)
next
  case False
  note ns = this
  show ?thesis
  proof (cases "word AND 0x38000 = 0x38000")
    case True
    with ns show ?thesis
      by (auto simp: notes_data_word_def decode_tempo_quarter_def)
  next
    case False
    show ?thesis
    proof (cases "parse_note word")
      case (Inl e)
      with ns False show ?thesis
        using parse_note_error_iff [of word e] by (auto simp: notes_data_word_def)
    next
      case (Inr nt)
      then have "word AND 0x7F \<noteq> 0" using parse_note_ok_iff [of word] by blast
      with ns False Inr show ?thesis
        by (auto simp: notes_data_word_def split: sum.splits dest: articulation_name_error)
    qed
  qed
qed


text \<open>
  Claim C9. \<^verbatim>\<open>parse_note\<close> returns a note exactly when the low 7 bits of the word (the
  duration field) are not all zero, and otherwise reaches the division by zero;
  \<^verbatim>\<open>decode_tempo_quarter\<close> returns exactly when the low 15 bits are not all zero, and
  otherwise reaches the division by zero. \<^verbatim>\<open>read_notes\<close> reaches the division by zero on
  exactly these data words: the tempo word \<^verbatim>\<open>0700000\<close>, and every word that is neither
  the sentinel nor a tempo word and has its low 7 bits zero.
\<close>

theorem decode_division_by_zero:
  "((\<exists>n. parse_note word = Inr n) \<longleftrightarrow> word AND 0x7F \<noteq> 0) \<and>
   (parse_note word = Inl DivisionByZero \<longleftrightarrow> word AND 0x7F = 0) \<and>
   ((\<exists>bpm. decode_tempo_quarter word = Inr bpm) \<longleftrightarrow> word AND 0x7FFF \<noteq> 0) \<and>
   (decode_tempo_quarter word = Inl DivisionByZero \<longleftrightarrow> word AND 0x7FFF = 0) \<and>
   (notes_data_word word = Inl DivisionByZero \<longleftrightarrow>
      word \<noteq> 0x30000 \<and>
      (if word AND 0x38000 = 0x38000 then word AND 0x7FFF = 0 else word AND 0x7F = 0))"
  using parse_note_ok_iff [of word] parse_note_error_iff [of word DivisionByZero]
    decode_tempo_quarter_error_iff [of word DivisionByZero] notes_data_word_div0_iff [of word]
  by (simp add: decode_tempo_quarter_def)

theorem decode_division_by_zero_witness:
  "parse_note 0x8000 = Inl DivisionByZero \<and>
   decode_tempo_quarter 0x38000 = Inl DivisionByZero \<and>
   notes_data_word 0x8000 = Inl DivisionByZero \<and>
   notes_data_word 0x38000 = Inl DivisionByZero \<and>
   read_notes \<lparr>fp = ppb 1 @ ppb 0x8000 @ ppb 0x8000, word_count = 0,
                notes_buf = (\<lambda>_. 0), notes_count = 0\<rparr> =
     Exit1 DivisionByZero \<lparr>fp = ppb 0x8000, word_count = 2,
                notes_buf = (\<lambda>_. 0)(0 := 0x8000), notes_count = 0\<rparr> \<and>
   read_notes \<lparr>fp = ppb 1 @ ppb 0x38000 @ ppb 0x38000, word_count = 0,
                notes_buf = (\<lambda>_. 0), notes_count = 0\<rparr> =
     Exit1 DivisionByZero \<lparr>fp = ppb 0x38000, word_count = 2,
                notes_buf = (\<lambda>_. 0)(0 := 0x38000), notes_count = 0\<rparr>"
  using decode_division_by_zero [of "0x8000"] decode_division_by_zero [of "0x38000"]
  by (simp add: read_notes_def read_notes_loop.simps read_next_word_def rpb_def ppb_def
        EOF_u32_def add_1s_complement_def NOTES_BUFFER_SIZE_def)

subsection \<open>Pitch and articulation of a note\<close>

lemma parse_note_fields:
  assumes "word AND 0x7F \<noteq> 0"
  shows "\<exists>n. parse_note word = Inr n \<and>
           pitch n = ucast (drop_bit 7 word AND 0x3F) \<and>
           articulation n = ucast ((drop_bit 14 word AND 0xC) OR drop_bit 13 (word AND 0x6000)) \<and>
           (pitch n \<le> 1 \<longrightarrow> note_name n = REST_NAME \<and> octave n = 0 \<and> semi_tone n = 0) \<and>
           (pitch n = 2 \<longrightarrow> note_name n = ''C'' \<and> octave n = 1 \<and> semi_tone n = 0)"
proof -
  have two: "1 < (2 :: u8)" by (simp add: word_less_nat_alt)
  show ?thesis
    using assms two
    unfolding parse_note_def Let_def parse_note_divisor duration_field_eq_0
    by (auto simp: NOTE_NAMES_def dest: leD)
qed

text \<open>
  Claim C7, as the code has it. Let a NOTES data word be decoded as a note (it is neither
  the sentinel nor a tempo word) and let its duration field be nonzero. Then \<^verbatim>\<open>parse_note\<close>
  returns a note. If the pitch field is 0 or 1 the note is a rest and decoding succeeds,
  whatever the articulation bits are. If the pitch field is 2 the note has octave 1 and
  semitone 0. If the pitch field is above 1, decoding succeeds for the composite
  articulation values 0, 1, 2, 4 and 8 and fails with \<open>InvalidArticulationError\<close> for every
  other value, 3 among them.
\<close>

theorem note_decode_boundary:
  assumes "word \<noteq> 0x30000" and "word AND 0x38000 \<noteq> 0x38000" and "word AND 0x7F \<noteq> 0"
  shows "\<exists>n. parse_note word = Inr n \<and>
           pitch n = ucast (drop_bit 7 word AND 0x3F) \<and>
           articulation n = ucast ((drop_bit 14 word AND 0xC) OR drop_bit 13 (word AND 0x6000)) \<and>
           (pitch n \<le> 1 \<longrightarrow>
              note_name n = REST_NAME \<and> octave n = 0 \<and> semi_tone n = 0 \<and>
              notes_data_word word = Inr (Note n)) \<and>
           (pitch n = 2 \<longrightarrow> note_name n = ''C'' \<and> octave n = 1 \<and> semi_tone n = 0) \<and>
           (1 < pitch n \<longrightarrow>
              (if articulation n \<in> {0, 1, 2, 4, 8} then notes_data_word word = Inr (Note n)
               else notes_data_word word = Inl InvalidArticulationError))"
proof -
  from parse_note_fields [OF assms(3)] obtain n where n: "parse_note word = Inr n"
    "pitch n = ucast (drop_bit 7 word AND 0x3F)"
    "articulation n = ucast ((drop_bit 14 word AND 0xC) OR drop_bit 13 (word AND 0x6000))"
    "pitch n \<le> 1 \<longrightarrow> note_name n = REST_NAME \<and> octave n = 0 \<and> semi_tone n = 0"
    "pitch n = 2 \<longrightarrow> note_name n = ''C'' \<and> octave n = 1 \<and> semi_tone n = 0"
    by blast
  have rest: "notes_data_word word = Inr (Note n)" if "pitch n \<le> 1"
  proof -
    from that have "\<not> 1 < pitch n" by (rule leD)
    with assms(1,2) n(1) show ?thesis by (simp add: notes_data_word_def)
  qed
  have u: "(ucast (a :: u8) :: u32) = ucast (b :: u8) \<longleftrightarrow> a = b" for a b
    by (simp add: word_uint_eq_iff uint_up_ucast is_up)
  have u': "(ucast a :: u32) = 0 \<longleftrightarrow> a = 0" "(ucast a :: u32) = 1 \<longleftrightarrow> a = 1"
    "(ucast a :: u32) = 2 \<longleftrightarrow> a = 2" "(ucast a :: u32) = 4 \<longleftrightarrow> a = 4"
    "(ucast a :: u32) = 8 \<longleftrightarrow> a = 8" for a :: u8
    using u [of a 0] u [of a 1] u [of a 2] u [of a 4] u [of a 8] by simp_all
  have pitched: "(if articulation n \<in> {0, 1, 2, 4, 8} then notes_data_word word = Inr (Note n)
               else notes_data_word word = Inl InvalidArticulationError)" if "1 < pitch n"
    using that assms(1,2) n(1)
    by (simp add: notes_data_word_def articulation_name_def u')
  from n rest pitched show ?thesis by blast
qed


theorem note_decode_boundary_witness:
  "(0x6101 :: u32) \<noteq> 0x30000 \<and> (0x6101 :: u32) AND 0x38000 \<noteq> 0x38000 \<and>
   (0x6101 :: u32) AND 0x7F \<noteq> 0 \<and>
   parse_note 0x6101 =
     Inr \<lparr>articulation = 3, triplet = 0, pitch = 2, duration = 1, note_duration = 64,
          note_pitch = 0, octave = 1, semi_tone = 0, note_name = ''C''\<rparr> \<and>
   notes_data_word 0x6101 = Inl InvalidArticulationError \<and>
   notes_data_word 0x0101 =
     Inr (Note \<lparr>articulation = 0, triplet = 0, pitch = 2, duration = 1, note_duration = 64,
          note_pitch = 0, octave = 1, semi_tone = 0, note_name = ''C''\<rparr>) \<and>
   notes_data_word 0x0081 =
     Inr (Note \<lparr>articulation = 0, triplet = 0, pitch = 1, duration = 1, note_duration = 64,
          note_pitch = 0, octave = 0, semi_tone = 0, note_name = REST_NAME\<rparr>)"
  using note_decode_boundary [of "0x6101"]
  by (simp add: notes_data_word_def parse_note_def articulation_name_def NOTE_NAMES_def
        ARTICULATION_NAMES_def)

text \<open>
  The word \<^verbatim>\<open>0060001\<close> has composite articulation 3 and pitch 0: it decodes as a rest,
  without an error. The word \<^verbatim>\<open>0060400\<close> has articulation 3, pitch 2 and duration 0: it
  stops at the division, before the articulation is looked at.
\<close>

theorem articulation_3_rest_counterexample:
  "parse_note 0x6001 =
     Inr \<lparr>articulation = 3, triplet = 0, pitch = 0, duration = 1, note_duration = 64,
          note_pitch = 0, octave = 0, semi_tone = 0, note_name = REST_NAME\<rparr> \<and>
   notes_data_word 0x6001 =
     Inr (Note \<lparr>articulation = 3, triplet = 0, pitch = 0, duration = 1, note_duration = 64,
          note_pitch = 0, octave = 0, semi_tone = 0, note_name = REST_NAME\<rparr>) \<and>
   notes_data_word 0x6100 = Inl DivisionByZero"
  by (simp add: notes_data_word_def parse_note_def articulation_name_def)

section \<open>Gap classification\<close>

text \<open>
  The blank frames of a word, counted on the byte stream itself. A frame is blank when its
  high bit is clear. The gap blanks are the blank frames before the first data frame. The
  inner blanks are the blank frames between the first data frame and the third:
  \<open>upto_data n\<close> is the prefix of a stream that ends with its \<open>n\<close>-th data frame (the whole
  stream when it has fewer).
\<close>

definition is_blank :: "u8 \<Rightarrow> bool" where
  "is_blank c = (c AND 0x80 = 0)"

fun upto_data :: "nat \<Rightarrow> stream \<Rightarrow> stream" where
  "upto_data 0 fp_arg = []"
| "upto_data (Suc n) [] = []"
| "upto_data (Suc n) (c # fp_arg) =
     c # (if is_blank c then upto_data (Suc n) fp_arg else upto_data n fp_arg)"

definition gap_blanks :: "stream \<Rightarrow> nat" where
  "gap_blanks fp_arg = length (takeWhile is_blank fp_arg)"

definition inner_blanks :: "stream \<Rightarrow> nat" where
  "inner_blanks fp_arg = length (filter is_blank (upto_data 3 (dropWhile is_blank fp_arg)))"

lemma rpb_loop_inner:
  assumes "rpb_loop i w g inn fp_arg = (w', g', inn', fp')" and "1 \<le> i" and "i \<le> 3"
  shows "g' = g \<and> inn' = inn + of_nat (length (filter is_blank (upto_data (3 - i) fp_arg))) \<and>
         upto_data (3 - i) fp_arg @ fp' = fp_arg"
  using assms
proof (induction fp_arg arbitrary: i w inn)
  case Nil
  then show ?case by (cases "3 - i") (auto split: if_splits)
next
  case (Cons c fp_arg)
  show ?case
  proof (cases "i < 3")
    case False
    with Cons.prems show ?thesis by simp
  next
    case True
    then obtain k where k: "3 - i = Suc k" "3 - (i + 1) = k"
      by (cases "3 - i") auto
    show ?thesis
    proof (cases "is_blank c")
      case True
      with \<open>i < 3\<close> Cons.prems have "rpb_loop i w g (inn + 1) fp_arg = (w', g', inn', fp')"
        by (simp add: is_blank_def)
      from Cons.IH [OF this Cons.prems(2,3)] True k show ?thesis by (simp add: ac_simps)
    next
      case False
      with \<open>i < 3\<close> Cons.prems
      have "rpb_loop (i + 1) (push_bit 6 w OR ucast (c AND 0x3F)) g inn fp_arg = (w', g', inn', fp')"
        by (simp add: is_blank_def)
      from Cons.IH [OF this] \<open>i < 3\<close> False k show ?thesis by simp
    qed
  qed
qed

lemma rpb_loop_classify:
  assumes "rpb_loop 0 w g inn fp_arg = (w', g', inn', fp')"
  shows "g' = g + of_nat (length (takeWhile is_blank fp_arg)) \<and>
         inn' = inn + of_nat (length (filter is_blank (upto_data 3 (dropWhile is_blank fp_arg)))) \<and>
         takeWhile is_blank fp_arg @ upto_data 3 (dropWhile is_blank fp_arg) @ fp' = fp_arg"
  using assms
proof (induction fp_arg arbitrary: g)
  case Nil
  then show ?case by (simp add: numeral_3_eq_3)
next
  case (Cons c fp_arg)
  show ?case
  proof (cases "is_blank c")
    case True
    with Cons.prems have "rpb_loop 0 w (g + 1) inn fp_arg = (w', g', inn', fp')"
      by (simp add: is_blank_def)
    from Cons.IH [OF this] True show ?thesis by (simp add: ac_simps)
  next
    case False
    with Cons.prems
    have "rpb_loop 1 (push_bit 6 w OR ucast (c AND 0x3F)) g inn fp_arg = (w', g', inn', fp')"
      by (simp add: is_blank_def)
    from rpb_loop_inner [OF this] False show ?thesis by (simp add: numeral_3_eq_3)
  qed
qed

text \<open>
  Claim C5, as the code has it. For every byte stream, \<^verbatim>\<open>rpb\<close> reports in \<^verbatim>\<open>gap_frames\<close> the
  number of blank frames before the first data frame and in \<^verbatim>\<open>inner_frames\<close> the number of
  blank frames after the first and before the third data frame, both as \<^verbatim>\<open>uint32_t\<close>, that
  is modulo \<open>2 ^ 32\<close>; it consumes exactly these frames and the data frames. The word read
  exits exactly when the inner counter is not zero: so whenever the word has at least one
  and fewer than \<open>2 ^ 32\<close> inner blanks, wherever they fall.
\<close>

theorem gap_classification:
  "(case rpb fp_arg of (word, gap_frames, inner_frames, fp') \<Rightarrow>
      gap_frames = of_nat (gap_blanks fp_arg) \<and> inner_frames = of_nat (inner_blanks fp_arg) \<and>
      takeWhile is_blank fp_arg @ upto_data 3 (dropWhile is_blank fp_arg) @ fp' = fp_arg) \<and>
   ((\<exists>fp'. read_next_word fp_arg wc = Rnw_exit fp') \<longleftrightarrow>
      (of_nat (inner_blanks fp_arg) :: u32) \<noteq> 0) \<and>
   (0 < inner_blanks fp_arg \<and> inner_blanks fp_arg < 2 ^ 32 \<longrightarrow>
      (\<exists>fp'. read_next_word fp_arg wc = Rnw_exit fp'))"
proof -
  obtain word g inn fp' where r: "rpb fp_arg = (word, g, inn, fp')"
    by (cases "rpb fp_arg") auto
  from rpb_loop_classify [OF r [unfolded rpb_def]]
  have c: "g = of_nat (gap_blanks fp_arg)" "inn = of_nat (inner_blanks fp_arg)"
    "takeWhile is_blank fp_arg @ upto_data 3 (dropWhile is_blank fp_arg) @ fp' = fp_arg"
    by (simp_all add: gap_blanks_def inner_blanks_def)
  have e: "(\<exists>fp'. read_next_word fp_arg wc = Rnw_exit fp') \<longleftrightarrow> inn \<noteq> 0"
    using r by (auto simp: read_next_word_def)
  have "(of_nat (inner_blanks fp_arg) :: u32) \<noteq> 0"
    if "0 < inner_blanks fp_arg" "inner_blanks fp_arg < 2 ^ 32"
    using that by (intro of_nat_neq_0) simp_all
  with r c e show ?thesis by auto
qed


theorem gap_classification_witness:
  "gap_blanks [0, 0, 0x81, 0, 0x82, 0x01, 0x83, 0x84] = 2 \<and>
   inner_blanks [0, 0, 0x81, 0, 0x82, 0x01, 0x83, 0x84] = 2 \<and>
   rpb [0, 0, 0x81, 0, 0x82, 0x01, 0x83, 0x84] = (0x1083, 2, 2, [0x84]) \<and>
   read_next_word [0, 0, 0x81, 0, 0x82, 0x01, 0x83, 0x84] 0 = Rnw_exit [0x84]"
proof -
  have "inner_blanks [0, 0, 0x81, 0, 0x82, 0x01, 0x83, 0x84] = 2"
    by (simp add: inner_blanks_def is_blank_def numeral_3_eq_3)
  moreover have "rpb [0, 0, 0x81, 0, 0x82, 0x01, 0x83, 0x84] = (0x1083, 2, 2, [0x84])"
    by (simp add: rpb_def)
  ultimately show ?thesis
    using gap_classification [of "[0, 0, 0x81, 0, 0x82, 0x01, 0x83, 0x84]" 0]
    by (simp add: gap_blanks_def is_blank_def read_next_word_def)
qed

text \<open>
  A word with exactly \<open>2 ^ 32\<close> blank frames after its first data frame: the counter wraps
  around to 0 and the word is read without an error.
\<close>

lemma rpb_loop_inner_replicate:
  "rpb_loop (Suc 0) w g inn (replicate n 0 @ fp_arg) = rpb_loop (Suc 0) w g (inn + of_nat n) fp_arg"
  by (induction n arbitrary: inn) (simp_all add: ac_simps)

lemma upto_data_replicate:
  "upto_data (Suc k) (replicate n 0 @ fp_arg) = replicate n 0 @ upto_data (Suc k) fp_arg"
  by (induction n) (simp_all add: is_blank_def)

theorem inner_count_wraps_counterexample:
  "inner_blanks (0x80 # replicate (2 ^ 32) 0 @ [0x80, 0x80]) = 2 ^ 32 \<and>
   rpb (0x80 # replicate (2 ^ 32) 0 @ [0x80, 0x80]) = (0, 0, 0, []) \<and>
   read_next_word (0x80 # replicate (2 ^ 32) 0 @ [0x80, 0x80]) 0 = Rnw_word 0 0 [] 1"
proof -
  have z: "(of_nat 4294967296 :: u32) = 0" by simp
  have d: "\<not> is_blank 0x80" "is_blank 0" by (simp_all add: is_blank_def)
  have "upto_data 3 (0x80 # replicate (2 ^ 32) 0 @ [0x80, 0x80]) =
          0x80 # replicate (2 ^ 32) 0 @ [0x80, 0x80]"
    using d by (simp add: numeral_3_eq_3 upto_data_replicate)
  then have i: "inner_blanks (0x80 # replicate (2 ^ 32) 0 @ [0x80, 0x80]) = 2 ^ 32"
    using d by (simp add: inner_blanks_def)
  have r: "rpb (0x80 # replicate (2 ^ 32) 0 @ [0x80, 0x80]) = (0, 0, 0, [])"
    unfolding rpb_def
    by (simp add: rpb_loop_inner_replicate z del: of_nat_numeral)
  from i r show ?thesis by (simp add: read_next_word_def EOF_u32_def)
qed

text \<open>
  Every section loop of the two programs calls \<^verbatim>\<open>read_next_word\<close> first, so its exit on
  inner blank frames ends the program wherever a word is read.
\<close>

lemma inner_dropout_exits:
  assumes "read_next_word bs wc = Rnw_exit fp'"
  shows "read_notes_loop pwc tot cks \<lparr>fp = bs, word_count = wc, notes_buf = nb, notes_count = nc\<rparr> =
           Exit1 InnerDropoutError \<lparr>fp = fp', word_count = wc, notes_buf = nb, notes_count = nc\<rparr>"
    and "read_bars_loop pwc tot cks \<lparr>fp = bs, word_count = wc, notes_buf = nb, notes_count = nc\<rparr> =
           Exit1 InnerDropoutError \<lparr>fp = fp', word_count = wc, notes_buf = nb, notes_count = nc\<rparr>"
    and "copy_notes_loop pwc tot cks ncs wc tempo \<lparr>fp_in = bs, fp_out = out\<rparr> =
           Exit1 InnerDropoutError \<lparr>fp_in = fp', fp_out = out\<rparr>"
    and "copy_bars_loop pwc tot cks wc \<lparr>fp_in = bs, fp_out = out\<rparr> =
           Exit1 InnerDropoutError \<lparr>fp_in = fp', fp_out = out\<rparr>"
proof -
  show "read_notes_loop pwc tot cks \<lparr>fp = bs, word_count = wc, notes_buf = nb, notes_count = nc\<rparr> =
           Exit1 InnerDropoutError \<lparr>fp = fp', word_count = wc, notes_buf = nb, notes_count = nc\<rparr>"
    by (subst read_notes_loop.simps) (simp add: assms)
  show "read_bars_loop pwc tot cks \<lparr>fp = bs, word_count = wc, notes_buf = nb, notes_count = nc\<rparr> =
           Exit1 InnerDropoutError \<lparr>fp = fp', word_count = wc, notes_buf = nb, notes_count = nc\<rparr>"
    by (subst read_bars_loop.simps) (simp add: assms)
  show "copy_notes_loop pwc tot cks ncs wc tempo \<lparr>fp_in = bs, fp_out = out\<rparr> =
           Exit1 InnerDropoutError \<lparr>fp_in = fp', fp_out = out\<rparr>"
    by (subst copy_notes_loop.simps) (simp add: assms)
  show "copy_bars_loop pwc tot cks wc \<lparr>fp_in = bs, fp_out = out\<rparr> =
           Exit1 InnerDropoutError \<lparr>fp_in = fp', fp_out = out\<rparr>"
    by (subst copy_bars_loop.simps) (simp add: assms)
qed

section \<open>Section framing\<close>

subsection \<open>The gap before a BARS section\<close>

lemma read_next_word_gap:
  assumes "read_next_word bs wc = Rnw_word word g rest wc'"
  shows "g = of_nat (gap_blanks bs)" and "wc' = wc + 1"
    and "read_next_word bs wc2 = Rnw_word word g rest (wc2 + 1)"
proof -
  obtain w1 g1 i1 r1 where r: "rpb bs = (w1, g1, i1, r1)" by (cases "rpb bs") auto
  from rpb_loop_classify [OF r [unfolded rpb_def]] have "g1 = of_nat (gap_blanks bs)"
    by (simp add: gap_blanks_def)
  with assms r show "g = of_nat (gap_blanks bs)" "wc' = wc + 1"
    "read_next_word bs wc2 = Rnw_word word g rest (wc2 + 1)"
    by (auto simp: read_next_word_def split: if_splits)
qed

text \<open>
  Claim C8. Let a BARS section start at a file position with zero blank frames before its
  first data frame, and let its count word be read without an error. Then \<^verbatim>\<open>read_bars\<close>
  (decode consumer) and \<^verbatim>\<open>copy_bars\<close> (re-encoding consumer) both exit with
  \<open>MissingGapError\<close>. At the exit only the count word has been read: the file position is
  right after it, the word count has gone up by one, and \<^verbatim>\<open>copy_bars\<close> has written nothing.
\<close>

theorem bars_zero_gap_exits:
  assumes "gap_blanks bs = 0" and "read_next_word bs wc = Rnw_word word g rest wc'"
  shows "read_bars \<lparr>fp = bs, word_count = wc, notes_buf = nb, notes_count = nc\<rparr> =
           Exit1 MissingGapError \<lparr>fp = rest, word_count = wc + 1, notes_buf = nb, notes_count = nc\<rparr> \<and>
         copy_bars \<lparr>fp_in = bs, fp_out = out\<rparr> =
           Exit1 MissingGapError \<lparr>fp_in = rest, fp_out = out\<rparr>"
proof -
  from read_next_word_gap [OF assms(2)] assms(1)
  have g: "g = 0" and wc: "wc' = wc + 1" and r0: "read_next_word bs 0 = Rnw_word word g rest 1"
    by simp_all
  have "read_bars \<lparr>fp = bs, word_count = wc, notes_buf = nb, notes_count = nc\<rparr> =
           Exit1 MissingGapError \<lparr>fp = rest, word_count = wc + 1, notes_buf = nb, notes_count = nc\<rparr>"
    unfolding read_bars_def
    by (subst read_bars_loop.simps) (simp add: assms(2) g wc)
  moreover have "copy_bars \<lparr>fp_in = bs, fp_out = out\<rparr> =
           Exit1 MissingGapError \<lparr>fp_in = rest, fp_out = out\<rparr>"
    unfolding copy_bars_def
    by (subst copy_bars_loop.simps) (simp add: r0 g)
  ultimately show ?thesis by simp
qed

theorem bars_zero_gap_exits_witness:
  "gap_blanks (ppb 1 @ ppb 0x30000 @ ppb 0x30000) = 0 \<and>
   read_next_word (ppb 1 @ ppb 0x30000 @ ppb 0x30000) 7 =
     Rnw_word 1 0 (ppb 0x30000 @ ppb 0x30000) 8 \<and>
   read_bars \<lparr>fp = ppb 1 @ ppb 0x30000 @ ppb 0x30000, word_count = 7,
               notes_buf = (\<lambda>_. 0), notes_count = 3\<rparr> =
     Exit1 MissingGapError \<lparr>fp = ppb 0x30000 @ ppb 0x30000, word_count = 8,
               notes_buf = (\<lambda>_. 0), notes_count = 3\<rparr> \<and>
   copy_bars \<lparr>fp_in = ppb 1 @ ppb 0x30000 @ ppb 0x30000, fp_out = [0, 0]\<rparr> =
     Exit1 MissingGapError \<lparr>fp_in = ppb 0x30000 @ ppb 0x30000, fp_out = [0, 0]\<rparr>"
proof -
  have g: "gap_blanks (ppb 1 @ ppb 0x30000 @ ppb 0x30000) = 0"
    by (simp add: gap_blanks_def ppb_def is_blank_def)
  have r: "read_next_word (ppb 1 @ ppb 0x30000 @ ppb 0x30000) 7 =
     Rnw_word 1 0 (ppb 0x30000 @ ppb 0x30000) 8"
    using read_next_word_ppb [of 1 0 "ppb 0x30000 @ ppb 0x30000" 7] by simp
  from bars_zero_gap_exits [OF g r] g r show ?thesis by simp
qed

subsection \<open>The sentinel in a BARS section\<close>

text \<open>
  Word arithmetic of the section loops: when the count has been read and the word being
  read is a data word, \<^verbatim>\<open>part_word_count\<close> after the increment is neither 1 nor
  \<^verbatim>\<open>total_word_count + 2\<close>. Counts are 18-bit, so nothing wraps around.
\<close>

lemma section_position:
  fixes pwc total :: u32
  assumes "1 \<le> unat pwc" and "unat pwc \<le> unat total" and "total \<le> 0x3FFFF"
  shows "pwc + 1 \<noteq> 1" and "pwc + 1 \<noteq> total + 2" and "1 < pwc + 1" and "pwc + 1 < total + 2"
    and "pwc + 1 = total + 1 \<longleftrightarrow> \<not> unat pwc < unat total"
proof -
  have t: "unat total \<le> 262143" using assms(3) by (simp add: word_le_nat_alt)
  have p1: "unat (pwc + 1) = unat pwc + 1"
    using assms(2) t by (simp add: unat_add_lem [THEN iffD1])
  have t1: "unat (total + 1) = unat total + 1"
    using t by (simp add: unat_add_lem [THEN iffD1])
  have t2: "unat (total + 2) = unat total + 2"
    using t by (simp add: unat_add_lem [THEN iffD1])
  show "pwc + 1 \<noteq> 1" using p1 assms(1) by (auto simp: word_unat_eq_iff [of "pwc + 1"])
  show "pwc + 1 \<noteq> total + 2" using p1 t2 assms(2) by (auto simp: word_unat_eq_iff [of "pwc + 1"])
  show "1 < pwc + 1" using p1 assms(1) by (simp add: word_less_nat_alt)
  show "pwc + 1 < total + 2" using p1 t2 assms(2) by (simp add: word_less_nat_alt)
  show "pwc + 1 = total + 1 \<longleftrightarrow> \<not> unat pwc < unat total"
    using p1 t1 assms(2) by (auto simp: word_unat_eq_iff [of "pwc + 1"] word_unat_eq_iff [of pwc])
qed

text \<open>
  Claim C10. Take any run of the loop of \<^verbatim>\<open>read_bars\<close> in which the count word has been read
  (\<^verbatim>\<open>part_word_count\<close> is at least 1 before the increment), the word being read is a data
  word (its data position, \<^verbatim>\<open>part_word_count\<close> before the increment, is at most the count)
  and that word is the sentinel \<^verbatim>\<open>0600000\<close>. If the data position is below the count,
  \<^verbatim>\<open>read_bars\<close> exits at once, with the file position right after the sentinel, so the
  checksum word has not been read. If the data position equals the count, the loop goes
  on to its next run, which reads the checksum word.
\<close>

theorem bars_sentinel_only_last:
  assumes "read_next_word (fp s) (word_count s) = Rnw_word 0x30000 g fp' wc'"
    and "1 \<le> unat part_word_count" and "unat part_word_count \<le> unat total_word_count"
    and "total_word_count \<le> 0x3FFFF"
  shows "read_bars_loop part_word_count total_word_count checksum s =
           (if unat part_word_count < unat total_word_count
            then Exit1 EndOfBarsBeforeCount (s\<lparr>fp := fp', word_count := wc'\<rparr>)
            else read_bars_loop (part_word_count + 1) total_word_count
                   (add_1s_complement checksum 0x30000) (s\<lparr>fp := fp', word_count := wc'\<rparr>))"
  using section_position [OF assms(2-4)]
  by (subst read_bars_loop.simps) (simp add: assms(1))


theorem bars_sentinel_only_last_witness:
  "read_next_word (ppb 0x30000 @ ppb 0x30000 @ ppb 0x20001) 1 =
     Rnw_word 0x30000 0 (ppb 0x30000 @ ppb 0x20001) 2 \<and>
   read_bars_loop 1 2 0 \<lparr>fp = ppb 0x30000 @ ppb 0x30000 @ ppb 0x20001, word_count = 1,
       notes_buf = (\<lambda>_. 0), notes_count = 0\<rparr> =
     Exit1 EndOfBarsBeforeCount \<lparr>fp = ppb 0x30000 @ ppb 0x20001, word_count = 2,
       notes_buf = (\<lambda>_. 0), notes_count = 0\<rparr> \<and>
   read_bars \<lparr>fp = [0] @ ppb 2 @ ppb 0x30000 @ ppb 0x30000 @ ppb 0x20001, word_count = 0,
       notes_buf = (\<lambda>_. 0), notes_count = 0\<rparr> =
     Exit1 EndOfBarsBeforeCount \<lparr>fp = ppb 0x30000 @ ppb 0x20001, word_count = 2,
       notes_buf = (\<lambda>_. 0), notes_count = 0\<rparr> \<and>
   read_bars \<lparr>fp = [0] @ ppb 1 @ ppb 0x30000 @ ppb 0x30000, word_count = 0,
       notes_buf = (\<lambda>_. 0), notes_count = 0\<rparr> =
     RetEOF \<lparr>fp = [], word_count = 3, notes_buf = (\<lambda>_. 0), notes_count = 0\<rparr>"
proof -
  have r: "read_next_word (ppb 0x30000 @ ppb 0x30000 @ ppb 0x20001) 1 =
     Rnw_word 0x30000 0 (ppb 0x30000 @ ppb 0x20001) 2"
    using read_next_word_ppb [of "0x30000" 0 "ppb 0x30000 @ ppb 0x20001" 1] by simp
  have "read_bars_loop 1 2 0 \<lparr>fp = ppb 0x30000 @ ppb 0x30000 @ ppb 0x20001, word_count = 1,
       notes_buf = (\<lambda>_. 0), notes_count = 0\<rparr> =
     Exit1 EndOfBarsBeforeCount \<lparr>fp = ppb 0x30000 @ ppb 0x20001, word_count = 2,
       notes_buf = (\<lambda>_. 0), notes_count = 0\<rparr>"
    using bars_sentinel_only_last [of "\<lparr>fp = ppb 0x30000 @ ppb 0x30000 @ ppb 0x20001,
       word_count = 1, notes_buf = (\<lambda>_. 0), notes_count = 0\<rparr>" 0
       "ppb 0x30000 @ ppb 0x20001" 2 1 2 0] r
    by simp
  moreover have "read_bars \<lparr>fp = [0] @ ppb 2 @ ppb 0x30000 @ ppb 0x30000 @ ppb 0x20001,
       word_count = 0, notes_buf = (\<lambda>_. 0), notes_count = 0\<rparr> =
     Exit1 EndOfBarsBeforeCount \<lparr>fp = ppb 0x30000 @ ppb 0x20001, word_count = 2,
       notes_buf = (\<lambda>_. 0), notes_count = 0\<rparr>"
    by (simp add: read_bars_def read_bars_loop.simps read_next_word_def rpb_def ppb_def
          EOF_u32_def add_1s_complement_def)
  moreover have "read_bars \<lparr>fp = [0] @ ppb 1 @ ppb 0x30000 @ ppb 0x30000, word_count = 0,
       notes_buf = (\<lambda>_. 0), notes_count = 0\<rparr> =
     RetEOF \<lparr>fp = [], word_count = 3, notes_buf = (\<lambda>_. 0), notes_count = 0\<rparr>"
    by (simp add: read_bars_def read_bars_loop.simps read_next_word_def rpb_def ppb_def
          EOF_u32_def add_1s_complement_def verify_checksum_def peek_gap_def)
  ultimately show ?thesis using r by simp
qed

subsection \<open>Words delivered by the Word Stream\<close>

text \<open>
  Every word that \<^verbatim>\<open>read_next_word\<close> delivers is assembled from three 6-bit payloads, so it
  is an 18-bit word.
\<close>

lemma rpb_loop_word_bound:
  assumes "rpb_loop i w g inn fp_arg = (w', g', inn', fp')" and "i \<le> 3"
    and "take_bit (6 * i) w = w"
  shows "w' = EOF_u32 \<or> take_bit 18 w' = w'"
  using assms
proof (induction fp_arg arbitrary: i w g inn)
  case Nil
  then show ?case by (cases "i < 3") auto
next
  case (Cons c fp_arg)
  show ?case
  proof (cases "i < 3")
    case False
    with Cons.prems have "i = 3" "w' = w" by auto
    with Cons.prems(3) show ?thesis by simp
  next
    case True
    note i3 = this
    show ?thesis
    proof (cases "c AND 0x80 \<noteq> 0")
      case True
      with i3 Cons.prems
      have r: "rpb_loop (i + 1) (push_bit 6 w OR ucast (c AND 0x3F)) g inn fp_arg = (w', g', inn', fp')"
        by simp
      have m: "(0x3F :: u8) = mask 6" by (simp add: mask_eq_exp_minus_1)
      have lo: "\<And>n. bit w n \<Longrightarrow> n < 6 * i"
        using Cons.prems(3) by (metis bit_take_bit_iff)
      have "take_bit (6 * (i + 1)) (push_bit 6 w OR ucast (c AND 0x3F) :: u32) =
              push_bit 6 w OR ucast (c AND 0x3F)"
        unfolding m
        by (rule bit_word_eqI) (auto simp: bit_simps dest: lo)
      from Cons.IH [OF r _ this] i3 show ?thesis by simp
    next
      case False
      with i3 Cons.prems Cons.IH [of i w g "inn + 1"] Cons.IH [of i w "g + 1" inn]
      show ?thesis by (cases "i = 0") simp_all
    qed
  qed
qed

lemma read_next_word_18bit:
  assumes "read_next_word bs wc = Rnw_word w g rest wc'"
  shows "w \<le> 0x3FFFF"
proof -
  obtain w1 g1 i1 r1 where r: "rpb bs = (w1, g1, i1, r1)" by (cases "rpb bs") auto
  with assms have w: "w1 = w" "w \<noteq> EOF_u32"
    by (auto simp: read_next_word_def split: if_splits)
  from rpb_loop_word_bound [OF r [unfolded rpb_def]] w have "take_bit 18 w = w" by simp
  then have "w AND mask 18 = w" by (simp add: take_bit_eq_mask)
  then have "w \<le> mask 18" by (metis word_and_le1)
  then show ?thesis by (simp add: mask_eq_exp_minus_1)
qed

text \<open>
  \<open>read_words n\<close> calls \<^verbatim>\<open>read_next_word\<close> \<open>n\<close> times in a row: the words read and the file
  position afterwards, when no call exits or returns \<^verbatim>\<open>EOF\<close>.
\<close>

fun read_words :: "nat \<Rightarrow> stream \<Rightarrow> (u32 list \<times> stream) option" where
  "read_words 0 bs = Some ([], bs)"
| "read_words (Suc n) bs =
     (case read_next_word bs 0 of
        Rnw_word w g bs' wc' \<Rightarrow>
          (case read_words n bs' of
             Some (ws, rest) \<Rightarrow> Some (w # ws, rest)
           | None \<Rightarrow> None)
      | _ \<Rightarrow> None)"

subsection \<open>A sentinel before the end of a whole BARS section\<close>

text \<open>
  The inner loop of \<^verbatim>\<open>read_bars\<close> stops only on the two kinds of undefined behaviour.
\<close>

lemma measure_loop_error:
  "measure_loop buf i n = Inl e \<Longrightarrow> e = DivisionByZero \<or> e = NotesBufferOverrun"
proof (induction buf i n rule: measure_loop.induct)
  case (1 buf i n)
  show ?case
  proof (cases "parse_note (buf i)")
    case (Inl e')
    with "1.prems" parse_note_error_iff [of "buf i" e'] show ?thesis
      by (subst (asm) measure_loop.simps) (auto split: if_splits)
  next
    case (Inr nt)
    with "1.prems" "1.IH" [of nt] show ?thesis
      by (subst (asm) measure_loop.simps) (auto split: if_splits)
  qed
qed

text \<open>
  The consequence of the sentinel rule for whole sections, on any byte stream. If the
  count and the first \<open>j + 1\<close> data words of a BARS section can be read, data word \<open>j + 1\<close>
  is the sentinel and \<open>j + 1\<close> is below the count, then \<^verbatim>\<open>read_bars\<close> exits with an error
  after it has read at most these \<open>j + 2\<close> words: the checksum word is never read.
\<close>

lemma read_bars_loop_early_sentinel:
  assumes "read_words (Suc j) (fp s) = Some (ds, bs2)" and "ds ! j = 0x30000"
    and "1 \<le> unat pwc" and "unat pwc + j < unat tot" and "tot \<le> 0x3FFFF"
  shows "\<exists>e s' k ws. read_bars_loop pwc tot cks s = Exit1 e s' \<and>
           1 \<le> k \<and> k \<le> Suc j \<and> read_words k (fp s) = Some (ws, fp s') \<and>
           (e = EndOfBarsBeforeCount \<or> e = NoteIndexOutOfRange \<or> e = DivisionByZero \<or>
            e = NotesBufferOverrun)"
  using assms
proof (induction j arbitrary: pwc cks s ds)
  case 0
  then obtain w g bs' wc' where r0: "read_next_word (fp s) 0 = Rnw_word w g bs' wc'"
    by (auto split: rnw.splits)
  with "0.prems"(1,2) have w: "w = 0x30000" and ds: "ds = [w]" by auto
  from read_next_word_gap(3) [OF r0, of "word_count s"]
  have r: "read_next_word (fp s) (word_count s) = Rnw_word w g bs' (word_count s + 1)" .
  have le: "unat pwc \<le> unat tot" using "0.prems"(4) by simp
  note pos = section_position [OF "0.prems"(3) le "0.prems"(5)]
  have nz: "pwc \<noteq> 0" using "0.prems"(3) by auto
  have ne: "pwc \<noteq> tot" using "0.prems"(4) by auto
  have "read_bars_loop pwc tot cks s =
          Exit1 EndOfBarsBeforeCount (s\<lparr>fp := bs', word_count := word_count s + 1\<rparr>)"
    by (subst read_bars_loop.simps) (simp add: r w Let_def pos(1-4) nz ne)
  moreover have "read_words 1 (fp s) = Some ([w], bs')" by (simp add: r0)
  ultimately show ?case by (intro exI [of _ EndOfBarsBeforeCount] exI [of _ "s\<lparr>fp := bs', word_count := word_count s + 1\<rparr>"] exI [of _ 1] exI [of _ "[w]"]) simp
next
  case (Suc j)
  then obtain w g bs' wc' where r0: "read_next_word (fp s) 0 = Rnw_word w g bs' wc'"
    by (auto split: rnw.splits)
  with Suc.prems(1) obtain ds' where ds': "read_words (Suc j) bs' = Some (ds', bs2)" "ds = w # ds'"
    by (auto split: option.splits)
  with Suc.prems(2) have sj: "ds' ! j = 0x30000" by simp
  from read_next_word_gap(3) [OF r0, of "word_count s"]
  have r: "read_next_word (fp s) (word_count s) = Rnw_word w g bs' (word_count s + 1)" .
  have le: "unat pwc \<le> unat tot" using Suc.prems(4) by simp
  note pos = section_position [OF Suc.prems(3) le Suc.prems(5)]
  have nz: "pwc \<noteq> 0" using Suc.prems(3) by auto
  have t: "unat tot \<le> 262143" using Suc.prems(5) by (simp add: word_le_nat_alt)
  have p1: "unat (pwc + 1) = unat pwc + 1"
    using le t by (simp add: unat_add_lem [THEN iffD1])
  let ?s1 = "s\<lparr>fp := bs', word_count := word_count s + 1\<rparr>"
  have one: "read_words 1 (fp s) = Some ([w], bs')" by (simp add: r0)
  consider (exit) e where "read_bars_loop pwc tot cks s = Exit1 e ?s1"
      "e = EndOfBarsBeforeCount \<or> e = NoteIndexOutOfRange \<or> e = DivisionByZero \<or> e = NotesBufferOverrun"
    | (continue) "read_bars_loop pwc tot cks s =
        read_bars_loop (pwc + 1) tot (add_1s_complement cks w) ?s1"
  proof (cases "w = 0x30000")
    case True
    have ne: "pwc \<noteq> tot" using Suc.prems(4) by auto
    have "read_bars_loop pwc tot cks s = Exit1 EndOfBarsBeforeCount ?s1"
      by (subst read_bars_loop.simps) (simp add: r True Let_def pos(1-4) nz ne)
    then show ?thesis using exit by simp
  next
    case False
    note ns = this
    show ?thesis
    proof (cases "notes_count s \<le> w")
      case True
      have "read_bars_loop pwc tot cks s = Exit1 NoteIndexOutOfRange ?s1"
        by (subst read_bars_loop.simps) (simp add: r ns True Let_def pos(1-4) nz)
      then show ?thesis using exit by simp
    next
      case False
      note idx = this
      show ?thesis
      proof (cases "measure_loop (notes_buf s) (unat w) (notes_count s)")
        case (Inl e)
        have "read_bars_loop pwc tot cks s = Exit1 e ?s1"
          by (subst read_bars_loop.simps) (simp add: r ns idx Inl Let_def pos(1-4) nz)
        with measure_loop_error [OF Inl] show ?thesis using exit by blast
      next
        case (Inr u)
        have "read_bars_loop pwc tot cks s =
                read_bars_loop (pwc + 1) tot (add_1s_complement cks w) ?s1"
          by (subst read_bars_loop.simps) (simp add: r ns idx Inr Let_def pos(1-4) nz)
        then show ?thesis using continue by simp
      qed
    qed
  qed
  then show ?case
  proof cases
    case (exit e)
    with one show ?thesis
      by (intro exI [of _ e] exI [of _ ?s1] exI [of _ 1] exI [of _ "[w]"]) simp
  next
    case continue
    have "read_words (Suc j) (fp ?s1) = Some (ds', bs2)" using ds'(1) by simp
    from Suc.IH [OF this sj, of "pwc + 1" "add_1s_complement cks w"] p1 Suc.prems(4,5)
    obtain e s' k ws where IH: "read_bars_loop (pwc + 1) tot (add_1s_complement cks w) ?s1 = Exit1 e s'"
      "1 \<le> k" "k \<le> Suc j" "read_words k bs' = Some (ws, fp s')"
      "e = EndOfBarsBeforeCount \<or> e = NoteIndexOutOfRange \<or> e = DivisionByZero \<or> e = NotesBufferOverrun"
      by auto
    have "read_words (Suc k) (fp s) = Some (w # ws, fp s')"
      using r0 IH(4) by simp
    with continue IH show ?thesis
      by (intro exI [of _ e] exI [of _ s'] exI [of _ "Suc k"] exI [of _ "w # ws"]) simp
  qed
qed

lemma read_bars_early_sentinel:
  assumes "read_words (Suc (Suc j)) (fp s) = Some (count # ds, bs2)" and "ds ! j = 0x30000"
    and "Suc j < unat count"
  shows "\<exists>e s' k ws. read_bars s = Exit1 e s' \<and>
           1 \<le> k \<and> k \<le> Suc (Suc j) \<and> read_words k (fp s) = Some (ws, fp s') \<and>
           (e = MissingGapError \<or> e = EndOfBarsBeforeCount \<or> e = NoteIndexOutOfRange \<or>
            e = DivisionByZero \<or> e = NotesBufferOverrun)"
proof -
  from assms(1) obtain g bs' wc' where r0: "read_next_word (fp s) 0 = Rnw_word count g bs' wc'"
    and ds: "read_words (Suc j) bs' = Some (ds, bs2)"
    by (auto split: rnw.splits option.splits)
  from read_next_word_gap(3) [OF r0, of "word_count s"]
  have r: "read_next_word (fp s) (word_count s) = Rnw_word count g bs' (word_count s + 1)" .
  have c: "count \<le> 0x3FFFF" using r0 by (rule read_next_word_18bit)
  let ?s1 = "s\<lparr>fp := bs', word_count := word_count s + 1\<rparr>"
  have one: "read_words 1 (fp s) = Some ([count], bs')" by (simp add: r0)
  show ?thesis
  proof (cases "g = 0")
    case True
    have "read_bars s = Exit1 MissingGapError ?s1"
      unfolding read_bars_def by (subst read_bars_loop.simps) (simp add: r True)
    with one show ?thesis
      by (intro exI [of _ MissingGapError] exI [of _ ?s1] exI [of _ 1] exI [of _ "[count]"]) simp
  next
    case False
    have start: "read_bars s = read_bars_loop 1 count 0 ?s1"
      unfolding read_bars_def by (subst read_bars_loop.simps) (simp add: r False)
    have "read_words (Suc j) (fp ?s1) = Some (ds, bs2)" using ds by simp
    from read_bars_loop_early_sentinel [OF this assms(2), of 1 count 0] assms(3) c
    obtain e s' k ws where l: "read_bars_loop 1 count 0 ?s1 = Exit1 e s'"
      "1 \<le> k" "k \<le> Suc j" "read_words k bs' = Some (ws, fp s')"
      "e = EndOfBarsBeforeCount \<or> e = NoteIndexOutOfRange \<or> e = DivisionByZero \<or> e = NotesBufferOverrun"
      by auto
    have "read_words (Suc k) (fp s) = Some (count # ws, fp s')"
      using r0 l(4) by simp
    with start l show ?thesis
      by (intro exI [of _ e] exI [of _ s'] exI [of _ "Suc k"] exI [of _ "count # ws"]) auto
  qed
qed

section \<open>End of stream in the decode consumer\<close>

text \<open>
  Wherever the file ends while \<^verbatim>\<open>read_bars\<close> reads a word (before the count, among the data
  words, before the checksum word, inside a word), \<^verbatim>\<open>read_bars\<close> returns \<^verbatim>\<open>EOF\<close>, and \<^verbatim>\<open>main\<close>
  turns every \<^verbatim>\<open>EOF\<close> of \<^verbatim>\<open>read_bars\<close> into its return value 0. Only an \<^verbatim>\<open>EOF\<close> of
  \<^verbatim>\<open>read_notes\<close> becomes the return value 1.
\<close>

lemma read_bars_loop_eof:
  assumes "read_next_word (fp s) (word_count s) = Rnw_EOF g fp'"
  shows "read_bars_loop pwc tot cks s = RetEOF (s\<lparr>fp := fp'\<rparr>)"
  by (subst read_bars_loop.simps) (simp add: assms)

lemma main_loop_bars_eof:
  assumes "voice \<le> 4" and "read_notes s = Ret0 s1" and "read_bars s1 = RetEOF s2"
  shows "main_loop voice s = Ret0 s2"
  by (subst main_loop.simps) (simp add: assms)

lemma main_loop_notes_eof:
  assumes "voice \<le> 4" and "read_notes s = RetEOF s1"
  shows "main_loop voice s = Exit1 UnexpectedEndOfStream s1"
  by (subst main_loop.simps) (simp add: assms)

text \<open>
  Claim C3 on five tapes. The NOTES section of each holds the two words \<^verbatim>\<open>0000401\<close> (a
  note) and \<^verbatim>\<open>0600000\<close> with checksum \<^verbatim>\<open>0600401\<close>.
  \<^enum> A complete tape: NOTES, one blank frame, a BARS section of two words with its checksum,
    two trailing blank frames. \<^verbatim>\<open>main\<close> returns 0 after the peek behind the BARS checksum.
  \<^enum> The tape ends right after the NOTES section: \<^verbatim>\<open>main\<close> returns 0.
  \<^enum> The tape ends inside the BARS section, after the first of its two data words:
    \<^verbatim>\<open>main\<close> returns 0.
  \<^enum> The tape ends inside a word of the BARS section: \<^verbatim>\<open>main\<close> returns 0.
  \<^enum> The tape ends inside the NOTES section: \<^verbatim>\<open>main\<close> returns 1.
  In the cases 2 to 4 the result of the program is the one of a complete tape: \<^verbatim>\<open>read_bars\<close>
  returns \<^verbatim>\<open>EOF\<close> for every end of file, and \<^verbatim>\<open>main\<close> leaves the voice loop on it.
\<close>

theorem eof_inside_bars_returns_0:
  "decodehcint_main (\<lambda>_. 0)
     (ppb 2 @ ppb 0x101 @ ppb 0x30000 @ ppb 0x30101 @
      [0] @ ppb 2 @ ppb 0 @ ppb 0x30000 @ ppb 0x30000 @ [0, 0]) =
     Ret0 \<lparr>fp = [0, 0], word_count = 8,
       notes_buf = (\<lambda>_. 0)(0 := 0x101, 1 := 0x30000), notes_count = 1\<rparr> \<and>
   decodehcint_main (\<lambda>_. 0)
     (ppb 2 @ ppb 0x101 @ ppb 0x30000 @ ppb 0x30101) =
     Ret0 \<lparr>fp = [], word_count = 4,
       notes_buf = (\<lambda>_. 0)(0 := 0x101, 1 := 0x30000), notes_count = 1\<rparr> \<and>
   decodehcint_main (\<lambda>_. 0)
     (ppb 2 @ ppb 0x101 @ ppb 0x30000 @ ppb 0x30101 @ [0] @ ppb 2 @ ppb 0) =
     Ret0 \<lparr>fp = [], word_count = 6,
       notes_buf = (\<lambda>_. 0)(0 := 0x101, 1 := 0x30000), notes_count = 1\<rparr> \<and>
   decodehcint_main (\<lambda>_. 0)
     (ppb 2 @ ppb 0x101 @ ppb 0x30000 @ ppb 0x30101 @ [0] @ ppb 2 @ ppb 0 @ [0x80]) =
     Ret0 \<lparr>fp = [], word_count = 6,
       notes_buf = (\<lambda>_. 0)(0 := 0x101, 1 := 0x30000), notes_count = 1\<rparr> \<and>
   decodehcint_main (\<lambda>_. 0) (ppb 2 @ ppb 0x101) =
     Exit1 UnexpectedEndOfStream
       \<lparr>fp = [], word_count = 2, notes_buf = (\<lambda>_. 0)(0 := 0x101), notes_count = 1\<rparr>"
  by (simp add: decodehcint_main_def main_loop.simps read_notes_def read_notes_loop.simps
        read_bars_def read_bars_loop.simps measure_loop.simps read_next_word_def peek_gap_def
        rpb_def ppb_def EOF_u32_def add_1s_complement_def verify_checksum_def
        notes_data_word_def parse_note_def articulation_name_def NOTES_BUFFER_SIZE_def)

section \<open>Re-encoding a NOTES section\<close>

text \<open>
  The bytes that the Frame Writer emits for a sequence of words, and the word that
  \<^verbatim>\<open>copy_notes\<close> writes in place of a data word when a tempo override is in effect: a tempo
  word (top three bits set) becomes \<^verbatim>\<open>0700000 | (tempo & 0077777)\<close>, any other word is
  copied.
\<close>

definition encode_words :: "u32 list \<Rightarrow> u8 list" where
  "encode_words ws = concat (map ppb ws)"

definition substitute_tempo :: "u32 \<Rightarrow> u32 \<Rightarrow> u32" where
  "substitute_tempo tempo word =
     (if word AND 0x38000 = 0x38000 then 0x38000 OR (tempo AND 0x7FFF) else word)"

lemma encode_words_simps:
  "encode_words [] = []" "encode_words (w # ws) = ppb w @ encode_words ws"
  "encode_words (xs @ ys) = encode_words xs @ encode_words ys"
  by (simp_all add: encode_words_def)

lemma section_last_position:
  fixes pwc total :: u32
  assumes "unat pwc = unat total + 1" and "total \<le> 0x3FFFF"
  shows "pwc + 1 \<noteq> 1" and "pwc + 1 = total + 2" and "1 + total \<noteq> 0"
proof -
  have t: "unat total \<le> 262143" using assms(2) by (simp add: word_le_nat_alt)
  have p1: "unat (pwc + 1) = unat pwc + 1"
    using assms(1) t by (simp add: unat_add_lem [THEN iffD1])
  have t2: "unat (total + 2) = unat total + 2"
    using t by (simp add: unat_add_lem [THEN iffD1])
  show "pwc + 1 \<noteq> 1" using p1 assms(1) by (auto simp: word_unat_eq_iff [of "pwc + 1"])
  show "pwc + 1 = total + 2" using p1 t2 assms(1) by (simp add: word_unat_eq_iff [of "pwc + 1"])
  have "unat (1 + total) = 1 + unat total"
    using t by (simp add: unat_add_lem [THEN iffD1])
  then show "1 + total \<noteq> 0" by (auto simp: word_unat_eq_iff [of "1 + total"])
qed

lemma copy_notes_loop_data:
  assumes "tempo \<noteq> - 1" and "\<forall>w \<in> set ds. w \<le> 0x3FFFF" and "tot \<le> 0x3FFFF"
    and "checksum \<le> 0x3FFFF"
    and "1 \<le> unat pwc" and "unat pwc + length ds = unat tot + 1"
  shows "copy_notes_loop pwc tot checksum new_checksum wc tempo
           \<lparr>fp_in = encode_words (ds @ [foldl add_1s_complement checksum ds]) @ rest,
            fp_out = out\<rparr> =
         Ret0 \<lparr>fp_in = rest,
               fp_out = out @ encode_words (map (substitute_tempo tempo) ds @
                 [foldl add_1s_complement new_checksum (map (substitute_tempo tempo) ds)])\<rparr>"
  using assms
proof (induction ds arbitrary: pwc checksum new_checksum wc out)
  case Nil
  then have p: "unat pwc = unat tot + 1" by simp
  have r: "read_next_word (ppb checksum @ rest) wc = Rnw_word checksum 0 rest (wc + 1)"
    using read_next_word_ppb [OF Nil.prems(4), of 0 rest wc] by simp
  show ?case
    by (subst copy_notes_loop.simps)
      (simp add: encode_words_simps r verify_checksum_def section_last_position [OF p Nil.prems(3)])
next
  case (Cons w ds)
  then have w: "w \<le> 0x3FFFF" and ds: "\<forall>w \<in> set ds. w \<le> 0x3FFFF" by simp_all
  have le: "unat pwc \<le> unat tot" using Cons.prems(6) by simp
  note pos = section_position [OF Cons.prems(5) le Cons.prems(3)]
  have t: "unat tot \<le> 262143" using Cons.prems(3) by (simp add: word_le_nat_alt)
  have p1: "unat (pwc + 1) = unat pwc + 1"
    using le t by (simp add: unat_add_lem [THEN iffD1])
  have r: "read_next_word (ppb w @ encode_words (ds @ [foldl add_1s_complement (add_1s_complement checksum w) ds]) @ rest) wc =
             Rnw_word w 0 (encode_words (ds @ [foldl add_1s_complement (add_1s_complement checksum w) ds]) @ rest) (wc + 1)"
    using read_next_word_ppb [OF w, of 0 _ wc] by simp
  have IH: "copy_notes_loop (pwc + 1) tot (add_1s_complement checksum w) nc (wc + 1) tempo
           \<lparr>fp_in = encode_words (ds @ [foldl add_1s_complement (add_1s_complement checksum w) ds]) @ rest,
            fp_out = out'\<rparr> =
         Ret0 \<lparr>fp_in = rest,
               fp_out = out' @ encode_words (map (substitute_tempo tempo) ds @
                 [foldl add_1s_complement nc (map (substitute_tempo tempo) ds)])\<rparr>" for nc out'
    using Cons.prems(6) p1
    by (intro Cons.IH [OF Cons.prems(1) ds Cons.prems(3) add_1s_complement_le [OF Cons.prems(4) w]]) simp_all
  have nz: "pwc \<noteq> 0" using Cons.prems(5) by auto
  show ?case
    using Cons.prems(1)
    by (subst copy_notes_loop.simps)
      (simp add: Let_def encode_words_simps(2) r IH substitute_tempo_def pos(1-4) nz)
qed

text \<open>
  A NOTES section in the Frame Writer's own encoding is processed to the end. Let a NOTES
  section of 18-bit words lie on the input: any number of blank frames, the count, the
  data words \<open>src\<close>, and their checksum. Then \<^verbatim>\<open>copy_notes\<close> returns 0, has consumed the
  section, and has written the count, the data words with every tempo word substituted,
  and the fold of the data words as written.
\<close>

lemma copy_notes_canonical_section:
  assumes "tempo \<noteq> - 1" and "\<forall>w \<in> set src. w \<le> 0x3FFFF" and "length src \<le> 262143"
  shows "copy_notes tempo
           \<lparr>fp_in = replicate g 0 @
              encode_words (of_nat (length src) # src @ [fold_checksum src]) @ rest,
            fp_out = out\<rparr> =
         Ret0 \<lparr>fp_in = rest,
               fp_out = out @
                 encode_words (of_nat (length src) # map (substitute_tempo tempo) src @
                   [fold_checksum (map (substitute_tempo tempo) src)])\<rparr>"
proof -
  let ?count = "of_nat (length src) :: u32"
  have u: "unat ?count = length src"
    using assms(3) by (simp add: unat_of_nat)
  then have c: "?count \<le> 0x3FFFF"
    using assms(3) by (simp add: word_le_nat_alt)
  have r: "read_next_word (replicate g 0 @ ppb ?count @ encode_words (src @ [fold_checksum src]) @ rest) 0 =
             Rnw_word ?count (of_nat g) (encode_words (src @ [fold_checksum src]) @ rest) 1"
    using read_next_word_ppb [OF c, of g _ 0] by simp
  have z: "(0 :: u32) \<le> 0x3FFFF" by simp
  have loop: "copy_notes_loop 1 ?count 0 0 1 tempo
           \<lparr>fp_in = encode_words (src @ [fold_checksum src]) @ rest, fp_out = out @ ppb ?count\<rparr> =
         Ret0 \<lparr>fp_in = rest,
               fp_out = (out @ ppb ?count) @ encode_words (map (substitute_tempo tempo) src @
                 [fold_checksum (map (substitute_tempo tempo) src)])\<rparr>"
    unfolding fold_checksum_def
    by (rule copy_notes_loop_data [OF assms(1,2) c z]) (simp_all add: u)
  show ?thesis
    unfolding copy_notes_def
    by (subst copy_notes_loop.simps) (simp add: encode_words_simps(2) r loop)
qed

subsection \<open>Every section that \<^verbatim>\<open>copy_notes\<close> completes\<close>

lemma read_words_Suc:
  assumes "read_next_word bs wc = Rnw_word w g bs' wc'" and "read_words n bs' = Some (ws, rest)"
  shows "read_words (Suc n) bs = Some (w # ws, rest)"
  using read_next_word_gap(3) [OF assms(1), of 0] assms(2) by simp

lemma copy_notes_loop_general:
  assumes "copy_notes_loop pwc tot cks ncs wc tempo s = Ret0 s'"
    and "tempo \<noteq> - 1" and "tot \<le> 0x3FFFF" and "1 \<le> unat pwc" and "unat pwc \<le> unat tot + 1"
  shows "\<exists>src. read_words (length src + 1) (fp_in s) =
                 Some (src @ [foldl add_1s_complement cks src], fp_in s') \<and>
               unat pwc + length src = unat tot + 1 \<and>
               fp_out s' = fp_out s @ encode_words (map (substitute_tempo tempo) src @
                 [foldl add_1s_complement ncs (map (substitute_tempo tempo) src)])"
  using assms
proof (induction "length (fp_in s)" arbitrary: pwc cks ncs wc s rule: less_induct)
  case less
  note run = less.prems(1)
  obtain w g bs' wc' where r: "read_next_word (fp_in s) wc = Rnw_word w g bs' wc'"
    using run by (subst (asm) copy_notes_loop.simps) (auto split: rnw.splits)
  have nz: "pwc \<noteq> 0" using less.prems(4) by auto
  let ?s1 = "s\<lparr>fp_in := bs'\<rparr>"
  show ?case
  proof (cases "unat pwc = unat tot + 1")
    case True
    note last = section_last_position [OF True less.prems(3)]
    from run have "w = cks \<and> s' = ?s1\<lparr>fp_out := fp_out s @ ppb ncs\<rparr>"
      by (subst (asm) copy_notes_loop.simps)
        (simp add: r Let_def last nz verify_checksum_def split: if_splits)
    then have "read_words (length ([] :: u32 list) + 1) (fp_in s) =
                 Some ([] @ [foldl add_1s_complement cks []], fp_in s')"
      and "fp_out s' = fp_out s @ encode_words (map (substitute_tempo tempo) [] @
                 [foldl add_1s_complement ncs (map (substitute_tempo tempo) [])])"
      using read_words_Suc [OF r, of 0 "[]" bs'] by (simp_all add: encode_words_def)
    with True show ?thesis by (intro exI [of _ "[]"]) simp
  next
    case False
    with less.prems(5) have le: "unat pwc \<le> unat tot" by simp
    note pos = section_position [OF less.prems(4) le less.prems(3)]
    have t: "unat tot \<le> 262143" using less.prems(3) by (simp add: word_le_nat_alt)
    have p1: "unat (pwc + 1) = unat pwc + 1"
      using le t by (simp add: unat_add_lem [THEN iffD1])
    let ?w' = "substitute_tempo tempo w"
    let ?s2 = "?s1\<lparr>fp_out := fp_out s @ ppb ?w'\<rparr>"
    from run have run': "copy_notes_loop (pwc + 1) tot (add_1s_complement cks w)
        (add_1s_complement ncs ?w') wc' tempo ?s2 = Ret0 s'"
      using less.prems(2)
      by (subst (asm) copy_notes_loop.simps)
        (simp add: r Let_def pos(1-4) nz substitute_tempo_def split: if_splits)
    have sh: "length (fp_in ?s2) < length (fp_in s)"
      using read_next_word_shorter [OF r] by simp
    from less.hyps [OF sh run' less.prems(2,3)] p1 le
    obtain src where src: "read_words (length src + 1) bs' =
                 Some (src @ [foldl add_1s_complement (add_1s_complement cks w) src], fp_in s')"
      "unat pwc + 1 + length src = unat tot + 1"
      "fp_out s' = (fp_out s @ ppb ?w') @ encode_words (map (substitute_tempo tempo) src @
                 [foldl add_1s_complement (add_1s_complement ncs ?w') (map (substitute_tempo tempo) src)])"
      by auto
    have "read_words (length (w # src) + 1) (fp_in s) =
            Some ((w # src) @ [foldl add_1s_complement cks (w # src)], fp_in s')"
      using read_words_Suc [OF r src(1)] by simp
    moreover have "fp_out s' = fp_out s @ encode_words (map (substitute_tempo tempo) (w # src) @
                 [foldl add_1s_complement ncs (map (substitute_tempo tempo) (w # src))])"
      using src(3) by (simp add: encode_words_def)
    moreover have "unat pwc + length (w # src) = unat tot + 1" using src(2) by simp
    ultimately show ?thesis by (intro exI [of _ "w # src"]) blast
  qed
qed

text \<open>
  Claim C4. \<^verbatim>\<open>copy_notes\<close> writes a checksum word only on the path that returns 0. Whenever
  it returns 0 with a tempo override in effect (\<open>tempo\<close> is not \<open>- 1\<close>), on any input bytes,
  it has read a count, as many data words \<open>src\<close> as the count says and their checksum, and
  it has appended to the output the count, the data words with every tempo word replaced
  by \<^verbatim>\<open>0700000 | (tempo & 0077777)\<close>, and as checksum word the end-around-carry fold of
  these data words as written, not the checksum of the source.
\<close>

theorem copy_notes_recomputes_checksum:
  assumes "copy_notes tempo s = Ret0 s'" and "tempo \<noteq> - 1"
  shows "\<exists>count src.
           read_words (length src + 2) (fp_in s) =
             Some (count # src @ [fold_checksum src], fp_in s') \<and>
           unat count = length src \<and>
           fp_out s' = fp_out s @
             encode_words (count # map (substitute_tempo tempo) src @
               [fold_checksum (map (substitute_tempo tempo) src)])"
proof -
  obtain count g bs' wc' where r: "read_next_word (fp_in s) 0 = Rnw_word count g bs' wc'"
    using assms(1) unfolding copy_notes_def
    by (subst (asm) copy_notes_loop.simps) (auto split: rnw.splits)
  have c: "count \<le> 0x3FFFF" using r by (rule read_next_word_18bit)
  let ?s1 = "s\<lparr>fp_in := bs', fp_out := fp_out s @ ppb count\<rparr>"
  from assms(1) have run: "copy_notes_loop 1 count 0 0 wc' tempo ?s1 = Ret0 s'"
    unfolding copy_notes_def
    by (subst (asm) copy_notes_loop.simps) (simp add: r)
  from copy_notes_loop_general [OF run assms(2) c]
  obtain src where src: "read_words (length src + 1) bs' =
                 Some (src @ [foldl add_1s_complement 0 src], fp_in s')"
      "1 + length src = unat count + 1"
      "fp_out s' = (fp_out s @ ppb count) @ encode_words (map (substitute_tempo tempo) src @
                 [foldl add_1s_complement 0 (map (substitute_tempo tempo) src)])"
    by auto
  have "read_words (length src + 2) (fp_in s) = Some (count # src @ [fold_checksum src], fp_in s')"
    using read_words_Suc [OF r src(1)] by (simp add: fold_checksum_def)
  moreover have "fp_out s' = fp_out s @
             encode_words (count # map (substitute_tempo tempo) src @
               [fold_checksum (map (substitute_tempo tempo) src)])"
    using src(3) by (simp add: encode_words_def fold_checksum_def)
  moreover have "unat count = length src" using src(2) by simp
  ultimately show ?thesis by blast
qed

text \<open>
  The scenario of the specification: count 1, the tempo word \<^verbatim>\<open>0700144\<close> (raw value 100),
  override 200. The emitted data word and the emitted checksum are both \<^verbatim>\<open>0700310\<close>; the
  checksum of the source is \<^verbatim>\<open>0700144\<close>.
\<close>

theorem copy_notes_recomputes_checksum_witness:
  "(200 :: u32) \<noteq> - 1 \<and>
   substitute_tempo 200 0x38064 = 0x380C8 \<and>
   fold_checksum [0x38064] = 0x38064 \<and> fold_checksum [0x380C8] = 0x380C8 \<and>
   copy_notes 200 \<lparr>fp_in = [0, 0] @ ppb 1 @ ppb 0x38064 @ ppb 0x38064 @ [0], fp_out = [0, 0]\<rparr> =
     Ret0 \<lparr>fp_in = [0], fp_out = [0, 0] @ ppb 1 @ ppb 0x380C8 @ ppb 0x380C8\<rparr> \<and>
   (\<exists>count src.
      read_words (length src + 2) ([0, 0] @ ppb 1 @ ppb 0x38064 @ ppb 0x38064 @ [0]) =
        Some (count # src @ [fold_checksum src], [0]) \<and>
      unat count = length src \<and>
      [0, 0] @ ppb 1 @ ppb 0x380C8 @ ppb 0x380C8 =
        [0, 0] @ encode_words (count # map (substitute_tempo 200) src @
          [fold_checksum (map (substitute_tempo 200) src)]))"
proof -
  have f: "fold_checksum [0x38064] = 0x38064" "fold_checksum [0x380C8] = 0x380C8"
    by (simp_all add: fold_checksum_def add_1s_complement_def)
  have s: "substitute_tempo 200 0x38064 = 0x380C8"
    by (simp add: substitute_tempo_def)
  have rep: "replicate 2 (0 :: u8) = [0, 0]"
    by (simp add: numeral_2_eq_2)
  have "copy_notes 200
          \<lparr>fp_in = replicate 2 0 @
             encode_words (of_nat (length [0x38064 :: u32]) # [0x38064] @ [fold_checksum [0x38064]]) @ [0],
           fp_out = [0, 0]\<rparr> =
        Ret0 \<lparr>fp_in = [0],
              fp_out = [0, 0] @
                encode_words (of_nat (length [0x38064 :: u32]) # map (substitute_tempo 200) [0x38064] @
                  [fold_checksum (map (substitute_tempo 200) [0x38064])])\<rparr>"
    by (rule copy_notes_canonical_section) simp_all
  then have run: "copy_notes 200
      \<lparr>fp_in = [0, 0] @ ppb 1 @ ppb 0x38064 @ ppb 0x38064 @ [0], fp_out = [0, 0]\<rparr> =
     Ret0 \<lparr>fp_in = [0], fp_out = [0, 0] @ ppb 1 @ ppb 0x380C8 @ ppb 0x380C8\<rparr>"
    unfolding rep using f s by (simp add: encode_words_def)
  from copy_notes_recomputes_checksum [OF run] f s run show ?thesis by simp
qed

end
